theory Spec2Isabelle
  imports Main "HOL-Library.Char_ord" "HOL-Library.Sublist"
begin

section \<open>Strings and regular expressions\<close>

text \<open>
  Python strings are modelled as HOL strings, whose characters are the code points below 256.
  The three patterns of \<^verbatim>\<open>find_church_emails.py\<close> are sequences of quantified character
  classes, so a pattern is given in parsed form: a list of pieces, each a character class with
  a least and an optional greatest number of repetitions. All quantifiers of the source are
  greedy.
\<close>

type_synonym piece = "(char \<Rightarrow> bool) \<times> nat \<times> nat option"
type_synonym regex = "piece list"

text \<open>\<^verbatim>\<open>try_counts k lo n\<close> backtracks as the \<^verbatim>\<open>re\<close> engine does on a greedy quantifier:
  the longest repetition first, then one character less, down to \<^verbatim>\<open>lo\<close>.\<close>

fun try_counts :: "(nat \<Rightarrow> nat option) \<Rightarrow> nat \<Rightarrow> nat \<Rightarrow> nat option" where
  "try_counts k lo n =
     (if n < lo then None
      else (case k n of
              Some r \<Rightarrow> Some r
            | None \<Rightarrow> (case n of 0 \<Rightarrow> None | Suc m \<Rightarrow> try_counts k lo m)))"

text \<open>\<^verbatim>\<open>match_here ps s\<close> is the length of the match of the pattern at the start of \<^verbatim>\<open>s\<close>
  that the engine finds first, if there is one.\<close>

fun match_here :: "regex \<Rightarrow> string \<Rightarrow> nat option" where
  "match_here [] s = Some 0"
| "match_here ((p, lo, hi) # ps) s =
     (let avail = length (takeWhile p s);
          most = (case hi of None \<Rightarrow> avail | Some h \<Rightarrow> min h avail)
      in try_counts (\<lambda>n. map_option (\<lambda>r. n + r) (match_here ps (drop n s))) lo most)"


text \<open>\<^verbatim>\<open>re.search(pattern, s)\<close>, as a truth value: a match at some position.\<close>

fun re_search :: "regex \<Rightarrow> string \<Rightarrow> bool" where
  "re_search ps [] = (case match_here ps [] of None \<Rightarrow> False | Some _ \<Rightarrow> True)"
| "re_search ps (c # s) =
     (case match_here ps (c # s) of None \<Rightarrow> re_search ps s | Some _ \<Rightarrow> True)"

text \<open>\<^verbatim>\<open>re.findall(pattern, s)\<close> for a pattern without groups: the matches from left to
  right, the scan resuming at the end of each match, one character further after an empty one.\<close>

function re_findall :: "regex \<Rightarrow> string \<Rightarrow> string list" where
  "re_findall ps [] = (case match_here ps [] of None \<Rightarrow> [] | Some _ \<Rightarrow> [[]])"
| "re_findall ps (c # s) =
     (case match_here ps (c # s) of
        None \<Rightarrow> re_findall ps s
      | Some 0 \<Rightarrow> [] # re_findall ps s
      | Some (Suc n) \<Rightarrow> take (Suc n) (c # s) # re_findall ps (drop n s))"
  by pat_completeness auto
termination
  by (relation "measure (\<lambda>(ps, s). length s)") auto

text \<open>\<^verbatim>\<open>re.fullmatch(pattern, s)\<close>, as a truth value: the pattern matches the string from its
  first character to its last, for some numbers of repetitions of its pieces.\<close>

fun re_fullmatch :: "regex \<Rightarrow> string \<Rightarrow> bool" where
  "re_fullmatch [] s = (s = [])"
| "re_fullmatch ((p, lo, hi) # ps) s =
     (let avail = length (takeWhile p s);
          most = (case hi of None \<Rightarrow> avail | Some h \<Rightarrow> min h avail)
      in list_ex (\<lambda>n. re_fullmatch ps (drop n s)) [lo..<Suc most])"

subsection \<open>Character classes\<close>

definition in_range :: "char \<Rightarrow> char \<Rightarrow> char \<Rightarrow> bool" where
  "in_range a b c = (a \<le> c \<and> c \<le> b)"

definition alpha :: "char \<Rightarrow> bool" where
  \<comment> \<open>\<^verbatim>\<open>[a-zA-Z]\<close>\<close>
  "alpha c = (in_range CHR ''a'' CHR ''z'' c \<or> in_range CHR ''A'' CHR ''Z'' c)"

definition alnum :: "char \<Rightarrow> bool" where
  \<comment> \<open>\<^verbatim>\<open>[a-zA-Z0-9]\<close>\<close>
  "alnum c = (alpha c \<or> in_range CHR ''0'' CHR ''9'' c)"

definition local_char :: "char \<Rightarrow> bool" where
  \<comment> \<open>\<^verbatim>\<open>[a-zA-Z0-9._%+-]\<close>\<close>
  "local_char c = (alnum c \<or> c \<in> set ''._%+-'')"

definition domain_char :: "char \<Rightarrow> bool" where
  \<comment> \<open>\<^verbatim>\<open>[a-zA-Z0-9.-]\<close>\<close>
  "domain_char c = (alnum c \<or> c \<in> set ''.-'')"

definition space :: "char \<Rightarrow> bool" where
  \<comment> \<open>\<^verbatim>\<open>\s\<close> on a str pattern: the code points below 256 for which \<^verbatim>\<open>str.isspace\<close> holds\<close>
  "space c = (of_char c \<in> {9, 10, 11, 12, 13, 28, 29, 30, 31, 32, 133, 160 :: nat})"

definition host_start :: "char \<Rightarrow> bool" where
  \<comment> \<open>\<^verbatim>\<open>[^\s/$.?#]\<close>\<close>
  "host_start c = (\<not> space c \<and> c \<notin> set ''/$.?#'')"

definition dot :: "char \<Rightarrow> bool" where
  \<comment> \<open>\<^verbatim>\<open>.\<close> without DOTALL: any character but a newline\<close>
  "dot c = (c \<noteq> CHR 0x0A)"

definition lit :: "char \<Rightarrow> piece" where
  "lit a = ((\<lambda>c. c = a), 1, Some 1)"

definition one :: "(char \<Rightarrow> bool) \<Rightarrow> piece" where
  "one p = (p, 1, Some 1)"

definition opt :: "(char \<Rightarrow> bool) \<Rightarrow> piece" where
  \<comment> \<open>\<^verbatim>\<open>?\<close>\<close>
  "opt p = (p, 0, Some 1)"

definition star :: "(char \<Rightarrow> bool) \<Rightarrow> piece" where
  \<comment> \<open>\<^verbatim>\<open>*\<close>\<close>
  "star p = (p, 0, None)"

definition plus :: "(char \<Rightarrow> bool) \<Rightarrow> piece" where
  \<comment> \<open>\<^verbatim>\<open>+\<close>\<close>
  "plus p = (p, 1, None)"

definition at_least :: "nat \<Rightarrow> (char \<Rightarrow> bool) \<Rightarrow> piece" where
  \<comment> \<open>\<^verbatim>\<open>{n,}\<close>\<close>
  "at_least n p = (p, n, None)"

text \<open>\<^verbatim>\<open>EMAIL_REGEX = r"[a-zA-Z0-9._%+-]+@[a-zA-Z0-9.-]+\.[a-zA-Z]{2,}"\<close>\<close>

definition EMAIL_REGEX :: regex where
  "EMAIL_REGEX =
     [plus local_char, lit CHR ''@'', plus domain_char, lit CHR ''.'', at_least 2 alpha]"





section \<open>The spreadsheet\<close>

text \<open>
  The result of the batch is a Python dict from a seed URL to the list of email lists of its
  contact pages. A dict keeps its keys in insertion order, and that order is the order of the
  rows, so it is modelled as an association list.
\<close>

type_synonym result_map = "(string \<times> string list list) list"

text \<open>A table has the columns \<^verbatim>\<open>url\<close> and \<^verbatim>\<open>email\<close>; a cell of the second column is
  \<^verbatim>\<open>None\<close> (NaN) or holds a value.\<close>

type_synonym 'a table = "(string \<times> 'a option) list"

text \<open>
  \<^verbatim>\<open>
  rows = [
      (key, value) if values else (key, None)
      for key, values in kerk_emails.items()
      for value in values
  ]
  \<close>
  The conditional is evaluated once for every \<^verbatim>\<open>value\<close> of \<^verbatim>\<open>values\<close>; a list is truthy
  when it is not empty.
\<close>

definition rows :: "result_map \<Rightarrow> string list table" where
  "rows kerk_emails =
     concat (map (\<lambda>(key, values).
                    map (\<lambda>value. if values \<noteq> [] then (key, Some value) else (key, None)) values)
                 kerk_emails)"

text \<open>\<^verbatim>\<open>DataFrame.explode("email")\<close>: a list cell becomes one row for each of its elements, an
  empty list becomes one row with NaN, and a cell without a list is kept.\<close>

fun explode_row :: "string \<times> string list option \<Rightarrow> string table" where
  "explode_row (u, None) = [(u, None)]"
| "explode_row (u, Some []) = [(u, None)]"
| "explode_row (u, Some (e # es)) = map (\<lambda>x. (u, Some x)) (e # es)"

definition explode :: "string list table \<Rightarrow> string table" where
  "explode df = concat (map explode_row df)"

text \<open>\<^verbatim>\<open>Series.str.contains(pat, na=na)\<close> on one cell: \<^verbatim>\<open>re.search\<close> on a string, \<^verbatim>\<open>na\<close> on
  a missing value.\<close>

definition str_contains :: "regex \<Rightarrow> bool \<Rightarrow> string option \<Rightarrow> bool" where
  "str_contains pat na cell = (case cell of None \<Rightarrow> na | Some s \<Rightarrow> re_search pat s)"

text \<open>\<^verbatim>\<open>DataFrame.drop_duplicates(subset=["email"])\<close> keeps, for each value of the column,
  the first row that has it (\<^verbatim>\<open>keep="first"\<close> is the default).\<close>

fun drop_duplicates_seen :: "'a option list \<Rightarrow> 'a table \<Rightarrow> 'a table" where
  "drop_duplicates_seen seen [] = []"
| "drop_duplicates_seen seen (r # df) =
     (if snd r \<in> set seen then drop_duplicates_seen seen df
      else r # drop_duplicates_seen (snd r # seen) df)"

definition drop_duplicates :: "'a table \<Rightarrow> 'a table" where
  "drop_duplicates df = drop_duplicates_seen [] df"

text \<open>
  \<^verbatim>\<open>
  df = pd.DataFrame(rows, columns=["url", "email"]).explode("email")
  df = df[df["email"].str.contains(EMAIL_REGEX, na=False)]
  df = df.drop_duplicates(subset=["email"])
  \<close>
  \<^verbatim>\<open>validated\<close> is the table after the second of these lines, \<^verbatim>\<open>final_table\<close> the table
  that is written to the spreadsheet.
\<close>

definition exploded :: "result_map \<Rightarrow> string table" where
  "exploded kerk_emails = explode (rows kerk_emails)"

definition validated :: "result_map \<Rightarrow> string table" where
  "validated kerk_emails =
     filter (\<lambda>r. str_contains EMAIL_REGEX False (snd r)) (exploded kerk_emails)"

definition final_table :: "result_map \<Rightarrow> string table" where
  "final_table kerk_emails = drop_duplicates (validated kerk_emails)"

section \<open>The fetcher and its cache\<close>

text \<open>
  What leaves the process is made explicit. A \<^verbatim>\<open>network\<close> says, for the n-th call of
  \<^verbatim>\<open>session.get\<close> of the run and its URL, what the call gives: \<^verbatim>\<open>session.get\<close> raises
  before it waits for anything (\<^verbatim>\<open>Invalid\<close>: the string is not a URL that aiohttp accepts),
  it raises after it has waited (\<^verbatim>\<open>Raises\<close>: no connection, a timeout), or there is a
  response with a status and a body, and reading the body with \<^verbatim>\<open>response.text()\<close> gives
  the text or raises.
\<close>

datatype fetch_error =
    GetRaised string
  | ClientResponseError nat
  | TextRaised string

datatype body = Text string | Unreadable string

datatype http_outcome = Invalid string | Raises string | Response nat body

type_synonym network = "nat \<Rightarrow> string \<Rightarrow> http_outcome"

text \<open>The exceptions that reach the callers of \<^verbatim>\<open>fetch\<close> and of the parser, and \<^verbatim>\<open>str(e)\<close>.\<close>

datatype py_exception = RuntimeError string | Raised string

fun str_e :: "py_exception \<Rightarrow> string" where
  "str_e (RuntimeError msg) = msg"
| "str_e (Raised msg) = msg"

text \<open>The four logging calls of the source, with their arguments.\<close>

datatype log_record =
    Error_fetching string fetch_error
  | Found_URLs string "string list"
  | Error_fetching_main string string
  | Error_extracting string string

text \<open>
  A call of an \<^verbatim>\<open>async def\<close> function runs nothing: it makes a coroutine object. The
  coroutine object of a call of \<^verbatim>\<open>fetch\<close> has not been awaited yet (\<^verbatim>\<open>Created\<close>), or its
  body has begun and waits for the network (\<^verbatim>\<open>Suspended\<close>), or its body has returned
  (\<^verbatim>\<open>Finished\<close>).
\<close>

datatype coroutine_state = Created | Suspended | Finished

text \<open>
  The state of the process: the clock \<^verbatim>\<open>time.monotonic()\<close>; the global \<^verbatim>\<open>cache\<close>, a list of
  entries (key, value, expiry time) with the least recently used entry first; the coroutine
  objects made by calls of \<^verbatim>\<open>fetch\<close>, each with its URL and its state (the values of the
  cache are addresses of coroutine objects, since the cache and the caller hold the same
  object); the URLs of the calls of \<^verbatim>\<open>session.get\<close>; the log; the number of client sessions
  made.
\<close>

record world =
  now :: nat
  cache :: "((nat \<times> string) \<times> nat \<times> nat) list"
  allocated :: nat
  coroutines :: "nat \<Rightarrow> string \<times> coroutine_state"
  requests :: "string list"
  log :: "log_record list"
  sessions :: nat

text \<open>\<^verbatim>\<open>cache = TTLCache(maxsize=1000, ttl=300)\<close>\<close>

definition maxsize :: nat where
  "maxsize = 1000"

definition ttl :: nat where
  "ttl = 300"

text \<open>\<^verbatim>\<open>cache[k]\<close>: the entry becomes the most recently used one; an entry whose time has
  come is missing (KeyError, here \<^verbatim>\<open>None\<close>).\<close>

definition cache_getitem :: "nat \<times> string \<Rightarrow> world \<Rightarrow> nat option \<times> world" where
  "cache_getitem k w =
     (case map_of (cache w) k of
        None \<Rightarrow> (None, w)
      | Some (v, expires) \<Rightarrow>
          (let w' = w\<lparr>cache := filter (\<lambda>e. fst e \<noteq> k) (cache w) @ [(k, v, expires)]\<rparr>
           in if now w < expires then (Some v, w') else (None, w')))"

text \<open>\<^verbatim>\<open>cache[k] = v\<close>: the expired entries are removed; when the key is new and the cache
  is full, the least recently used entries are removed until there is room; the entry is
  put last with a fresh expiry time.\<close>

definition cache_setitem :: "nat \<times> string \<Rightarrow> nat \<Rightarrow> world \<Rightarrow> world" where
  "cache_setitem k v w =
     (let live = filter (\<lambda>(_, _, expires). now w < expires) (cache w);
          kept = (if k \<in> fst ` set live then filter (\<lambda>e. fst e \<noteq> k) live
                  else drop (Suc (length live) - maxsize) live)
      in w\<lparr>cache := kept @ [(k, v, now w + ttl)]\<rparr>)"

text \<open>
  \<^verbatim>\<open>
  @cached(cache)
  async def fetch(session: aiohttp.ClientSession, url: str) -> str:
  \<close>
  The wrapper of \<^verbatim>\<open>cachetools.cached\<close> is an ordinary function: it looks the key, made of
  all the arguments, up in the cache and returns the value found there; otherwise it calls
  the function, stores what the call returned, and returns it. What the call of the
  \<^verbatim>\<open>async def\<close> returns is a new coroutine object, so the cache holds coroutine objects.
\<close>

definition fetch :: "world \<Rightarrow> nat \<Rightarrow> string \<Rightarrow> nat \<times> world" where
  "fetch w session url =
     (case cache_getitem (session, url) w of
        (Some c, w1) \<Rightarrow> (c, w1)
      | (None, w1) \<Rightarrow>
          (let c = allocated w1;
               w2 = w1\<lparr>allocated := Suc c, coroutines := (coroutines w1)(c := (url, Created))\<rparr>
           in (c, cache_setitem (session, url) c w2)))"

text \<open>
  The body of \<^verbatim>\<open>fetch\<close>:
  \<^verbatim>\<open>
      try:
          async with session.get(url) as response:
              response.raise_for_status()
              return await response.text()
      except Exception as e:
          logging.error(f"Error fetching {url}: {e}")
          return ""
  \<close>
  \<^verbatim>\<open>raise_for_status\<close> of aiohttp raises ClientResponseError when the status is 400 or more.
  \<^verbatim>\<open>fetch_returns\<close> is what the body returns, and the exception it has caught, for each
  outcome of the request.
\<close>

definition fetch_returns :: "http_outcome \<Rightarrow> string \<times> fetch_error option" where
  "fetch_returns outcome =
     (case outcome of
        Invalid msg \<Rightarrow> ([], Some (GetRaised msg))
      | Raises msg \<Rightarrow> ([], Some (GetRaised msg))
      | Response status b \<Rightarrow>
          if 400 \<le> status then ([], Some (ClientResponseError status))
          else (case b of
                  Text t \<Rightarrow> (t, None)
                | Unreadable msg \<Rightarrow> ([], Some (TextRaised msg))))"

text \<open>The body of the coroutine \<^verbatim>\<open>c\<close> comes to its end: the error, if any, is logged and
  the coroutine is finished.\<close>

definition finish_fetch :: "world \<Rightarrow> nat \<Rightarrow> http_outcome \<Rightarrow> string \<times> world" where
  "finish_fetch w c outcome =
     (let url = fst (coroutines w c);
          w1 = w\<lparr>coroutines := (coroutines w)(c := (url, Finished))\<rparr>
      in case fetch_returns outcome of
           (text, None) \<Rightarrow> (text, w1)
         | (text, Some e) \<Rightarrow> (text, w1\<lparr>log := log w1 @ [Error_fetching url e]\<rparr>))"

text \<open>
  \<^verbatim>\<open>await c\<close> on a coroutine object of \<^verbatim>\<open>fetch\<close> begins in one of three ways. A coroutine
  that has finished raises RuntimeError, and so does one that is suspended, that is, one
  that another \<^verbatim>\<open>await\<close> is waiting for. A coroutine that has not been awaited runs its body:
  \<^verbatim>\<open>session.get\<close> is called, which is request number \<^verbatim>\<open>n\<close> of the run; when the call raises
  at once the body returns at once, otherwise the coroutine is suspended and the awaiting
  task waits (\<^verbatim>\<open>Waiting n\<close>) while the event loop runs other tasks.
\<close>

datatype awaited = Raised_by_await py_exception | Returned string | Waiting nat

definition await_begin :: "network \<Rightarrow> world \<Rightarrow> nat \<Rightarrow> awaited \<times> world" where
  "await_begin net w c =
     (case coroutines w c of (url, state) \<Rightarrow>
        (case state of
           Finished \<Rightarrow>
             (Raised_by_await (RuntimeError ''cannot reuse already awaited coroutine''), w)
         | Suspended \<Rightarrow>
             (Raised_by_await (RuntimeError ''coroutine is being awaited already''), w)
         | Created \<Rightarrow>
             (let n = length (requests w);
                  w1 = w\<lparr>requests := requests w @ [url]\<rparr>
              in case net n url of
                   Invalid msg \<Rightarrow>
                     (case finish_fetch w1 c (Invalid msg) of (text, w2) \<Rightarrow> (Returned text, w2))
                 | Raises msg \<Rightarrow>
                     (Waiting n, w1\<lparr>coroutines := (coroutines w1)(c := (url, Suspended))\<rparr>)
                 | Response status b \<Rightarrow>
                     (Waiting n, w1\<lparr>coroutines := (coroutines w1)(c := (url, Suspended))\<rparr>))))"

text \<open>The event loop resumes the task that waits for request \<^verbatim>\<open>n\<close> in the body of the
  coroutine \<^verbatim>\<open>c\<close>: the body runs to its end and the \<^verbatim>\<open>await\<close> gives what it returns.\<close>

definition await_end :: "network \<Rightarrow> world \<Rightarrow> nat \<Rightarrow> nat \<Rightarrow> string \<times> world" where
  "await_end net w c n = finish_fetch w c (net n (fst (coroutines w c)))"

section \<open>Contact pages and emails\<close>

text \<open>
  \<^verbatim>\<open>str.lower\<close> on the code points below 256: the letters A to Z and the capital letters
  of Latin-1 (0xC0 to 0xDE without the multiplication sign 0xD7) move up by 32.
\<close>

definition lower_char :: "char \<Rightarrow> char" where
  "lower_char c =
     (let n = (of_char c :: nat)
      in if 65 \<le> n \<and> n \<le> 90 then char_of (n + 32)
         else if n = 215 then c
         else if 192 \<le> n \<and> n \<le> 222 then char_of (n + 32)
         else c)"

definition lower :: "string \<Rightarrow> string" where
  "lower s = map lower_char s"

fun starts_with :: "string \<Rightarrow> string \<Rightarrow> bool" where
  "starts_with s [] = True"
| "starts_with [] (k # ks) = False"
| "starts_with (c # s) (k # ks) = (if c = k then starts_with s ks else False)"

text \<open>\<^verbatim>\<open>keyword in s\<close> on strings.\<close>

fun str_in :: "string \<Rightarrow> string \<Rightarrow> bool" where
  "str_in keyword [] = (keyword = [])"
| "str_in keyword (c # s) = (if starts_with (c # s) keyword then True else str_in keyword s)"

text \<open>
  The HTML parser is not part of the program. A \<^verbatim>\<open>parser\<close> says what
  \<^verbatim>\<open>BeautifulSoup(html, "lxml")\<close> makes of a text: it raises an exception, given by its
  message, or there is a tree, given by its \<^verbatim>\<open>a\<close> elements in document order, each with
  the value of its \<^verbatim>\<open>href\<close> attribute if it has one.
\<close>

type_synonym parser = "string \<Rightarrow> string + string option list"

text \<open>\<^verbatim>\<open>soup.find_all("a", href=True)\<close>, each link given by \<^verbatim>\<open>link["href"]\<close>.\<close>

definition find_all_a_href :: "string option list \<Rightarrow> string list" where
  "find_all_a_href anchors = List.map_filter (\<lambda>a. a) anchors"

text \<open>
  \<^verbatim>\<open>
  async def get_contact_page_urls(session, main_url, contact_page_keywords):
      try:
          html_content = await fetch(session, main_url)
          soup = BeautifulSoup(html_content, "lxml")
          contact_urls = [
              link["href"]
              for link in soup.find_all("a", href=True)
              if any(keyword in link["href"].lower() for keyword in contact_page_keywords)
          ]
          logging.info(f"Found URLs for {main_url}: {contact_urls}")
          return contact_urls
      except Exception as e:
          logging.error(f"Error fetching {main_url}: {e}")
          return [str(e)]
  \<close>
  The function is given from the point where \<^verbatim>\<open>await fetch(session, main_url)\<close> has
  raised \<^verbatim>\<open>e\<close> (\<^verbatim>\<open>Inl e\<close>) or has given the text \<^verbatim>\<open>html_content\<close> (\<^verbatim>\<open>Inr html_content\<close>); the
  \<^verbatim>\<open>await\<close> itself is a step of the task, below.
\<close>

definition get_contact_page_urls ::
  "parser \<Rightarrow> world \<Rightarrow> string \<Rightarrow> string list \<Rightarrow> py_exception + string
     \<Rightarrow> string list \<times> world" where
  "get_contact_page_urls soup w main_url contact_page_keywords awaited_fetch =
     (let failed = (\<lambda>e. ([str_e e], w\<lparr>log := log w @ [Error_fetching_main main_url (str_e e)]\<rparr>))
      in case awaited_fetch of
           Inl e \<Rightarrow> failed e
         | Inr html_content \<Rightarrow>
             (case soup html_content of
                Inl msg \<Rightarrow> failed (Raised msg)
              | Inr anchors \<Rightarrow>
                  (let contact_urls =
                         filter (\<lambda>href. list_ex (\<lambda>keyword. str_in keyword (lower href))
                                                contact_page_keywords)
                                (find_all_a_href anchors)
                   in (contact_urls, w\<lparr>log := log w @ [Found_URLs main_url contact_urls]\<rparr>))))"

text \<open>
  \<^verbatim>\<open>
  async def extract_emails_from_page(session, url, email_regex):
      try:
          html_content = await fetch(session, url)
          emails = re.findall(email_regex, html_content)
      except Exception as e:
          logging.error(f"Error extracting emails from {url}: {e}")
          emails = [str(e)]
      return emails
  \<close>
  Again from the point where \<^verbatim>\<open>await fetch(session, url)\<close> has raised or has given a text.
\<close>

definition extract_emails_from_page ::
  "world \<Rightarrow> string \<Rightarrow> regex \<Rightarrow> py_exception + string \<Rightarrow> string list \<times> world" where
  "extract_emails_from_page w url email_regex awaited_fetch =
     (case awaited_fetch of
        Inr html_content \<Rightarrow> (re_findall email_regex html_content, w)
      | Inl e \<Rightarrow> ([str_e e], w\<lparr>log := log w @ [Error_extracting url (str_e e)]\<rparr>))"

section \<open>The tasks\<close>

text \<open>
  \<^verbatim>\<open>
  async def process_kerk_url(session, kerk_url, contact_page_keywords, email_regex):
      contact_pages = await get_contact_page_urls(session, kerk_url, contact_page_keywords)
      emails = [
          await extract_emails_from_page(session, page, email_regex)
          for page in contact_pages
      ]
      return kerk_url, emails
  \<close>
  A task runs one call of \<^verbatim>\<open>process_kerk_url\<close>. It has not been started; or it waits in
  \<^verbatim>\<open>get_contact_page_urls\<close> for request \<^verbatim>\<open>n\<close> in the body of the coroutine \<^verbatim>\<open>c\<close>; or it waits
  in \<^verbatim>\<open>extract_emails_from_page\<close>, inside the list comprehension, with \<^verbatim>\<open>contact_pages\<close>
  and the email lists made so far; or it is done and has returned \<^verbatim>\<open>(kerk_url, emails)\<close>.
  The page that a waiting comprehension is at is the one whose index is the number of email
  lists made.
\<close>

datatype task =
    Not_started string
  | Awaiting_main string nat nat
  | Awaiting_page string "string list" "string list list" nat nat
  | Done string "string list list"

fun kerk_url_of :: "task \<Rightarrow> string" where
  "kerk_url_of (Not_started u) = u"
| "kerk_url_of (Awaiting_main u c n) = u"
| "kerk_url_of (Awaiting_page u pages emails c n) = u"
| "kerk_url_of (Done u emails) = u"

text \<open>The email lists that a task has made so far.\<close>

fun emails_of :: "task \<Rightarrow> string list list" where
  "emails_of (Not_started u) = []"
| "emails_of (Awaiting_main u c n) = []"
| "emails_of (Awaiting_page u pages emails c n) = emails"
| "emails_of (Done u emails) = emails"

text \<open>A task is at work for the seed \<^verbatim>\<open>u\<close> and the candidates \<^verbatim>\<open>pages\<close> when it is done, has
  returned \<^verbatim>\<open>u\<close> and has made one email list for each candidate, or when it waits in the
  comprehension over these candidates and has not made all the lists yet.\<close>

fun made_for :: "string \<Rightarrow> string list \<Rightarrow> task \<Rightarrow> bool" where
  "made_for u pages (Done u' emails) = (u' = u \<and> length emails = length pages)"
| "made_for u pages (Awaiting_page u' pages' emails c n) =
     (u' = u \<and> pages' = pages \<and> length emails < length pages)"
| "made_for u pages (Not_started u') = False"
| "made_for u pages (Awaiting_main u' c n) = False"

fun is_done :: "task \<Rightarrow> bool" where
  "is_done (Done u emails) = True"
| "is_done (Not_started u) = False"
| "is_done (Awaiting_main u c n) = False"
| "is_done (Awaiting_page u pages emails c n) = False"

text \<open>What the three kinds of unfinished tasks count for in the measure of the event loop.\<close>

fun fresh :: "task \<Rightarrow> nat" where
  "fresh (Not_started u) = 1"
| "fresh (Awaiting_main u c n) = 0"
| "fresh (Awaiting_page u pages emails c n) = 0"
| "fresh (Done u emails) = 0"

fun at_main :: "task \<Rightarrow> nat" where
  "at_main (Not_started u) = 0"
| "at_main (Awaiting_main u c n) = 1"
| "at_main (Awaiting_page u pages emails c n) = 0"
| "at_main (Done u emails) = 0"

fun pages_left :: "task \<Rightarrow> nat" where
  "pages_left (Not_started u) = 0"
| "pages_left (Awaiting_main u c n) = 0"
| "pages_left (Awaiting_page u pages emails c n) = Suc (length pages - length emails)"
| "pages_left (Done u emails) = 0"

text \<open>
  The list comprehension, from the page with index \<^verbatim>\<open>length emails\<close> on: each page is
  fetched and awaited before the next one; the task goes on until an \<^verbatim>\<open>await\<close> has to wait
  or the pages are used up and the function returns.
\<close>

function emails_comprehension ::
  "network \<Rightarrow> world \<Rightarrow> nat \<Rightarrow> string \<Rightarrow> string list \<Rightarrow> string list list \<Rightarrow> regex
     \<Rightarrow> task \<times> world" where
  "emails_comprehension net w session kerk_url contact_pages emails email_regex =
     (if length contact_pages \<le> length emails then (Done kerk_url emails, w)
      else
        (let page = contact_pages ! length emails
         in case fetch w session page of (c, w1) \<Rightarrow>
              (case await_begin net w1 c of
                 (Waiting n, w2) \<Rightarrow> (Awaiting_page kerk_url contact_pages emails c n, w2)
               | (Raised_by_await e, w2) \<Rightarrow>
                   (case extract_emails_from_page w2 page email_regex (Inl e) of (es, w3) \<Rightarrow>
                      emails_comprehension net w3 session kerk_url contact_pages (emails @ [es])
                        email_regex)
               | (Returned html_content, w2) \<Rightarrow>
                   (case extract_emails_from_page w2 page email_regex (Inr html_content) of
                      (es, w3) \<Rightarrow>
                        emails_comprehension net w3 session kerk_url contact_pages (emails @ [es])
                          email_regex))))"
  by pat_completeness auto
termination
  by (relation "measure (\<lambda>(net, w, session, u, pages, emails, rx). length pages - length emails)")
     auto

declare emails_comprehension.simps [simp del]

text \<open>\<^verbatim>\<open>process_kerk_url\<close> once \<^verbatim>\<open>get_contact_page_urls\<close> is past its \<^verbatim>\<open>await\<close>.\<close>

definition process_kerk_url_from ::
  "network \<Rightarrow> parser \<Rightarrow> world \<Rightarrow> nat \<Rightarrow> string \<Rightarrow> string list \<Rightarrow> regex
     \<Rightarrow> py_exception + string \<Rightarrow> task \<times> world" where
  "process_kerk_url_from net soup w session kerk_url contact_page_keywords email_regex awaited_fetch =
     (case get_contact_page_urls soup w kerk_url contact_page_keywords awaited_fetch of
        (contact_pages, w1) \<Rightarrow>
          emails_comprehension net w1 session kerk_url contact_pages [] email_regex)"

text \<open>The first step of a task: from the call of \<^verbatim>\<open>process_kerk_url\<close> to the first
  \<^verbatim>\<open>await\<close> that has to wait, or to the end.\<close>

definition process_kerk_url ::
  "network \<Rightarrow> parser \<Rightarrow> world \<Rightarrow> nat \<Rightarrow> string \<Rightarrow> string list \<Rightarrow> regex \<Rightarrow> task \<times> world" where
  "process_kerk_url net soup w session kerk_url contact_page_keywords email_regex =
     (case fetch w session kerk_url of (c, w1) \<Rightarrow>
        (case await_begin net w1 c of
           (Waiting n, w2) \<Rightarrow> (Awaiting_main kerk_url c n, w2)
         | (Raised_by_await e, w2) \<Rightarrow>
             process_kerk_url_from net soup w2 session kerk_url contact_page_keywords email_regex
               (Inl e)
         | (Returned html_content, w2) \<Rightarrow>
             process_kerk_url_from net soup w2 session kerk_url contact_page_keywords email_regex
               (Inr html_content)))"

text \<open>One step of a task: a task that has not been started is started, a task that waits
  is resumed with the text that its \<^verbatim>\<open>await\<close> gives.\<close>

fun step_task ::
  "network \<Rightarrow> parser \<Rightarrow> world \<Rightarrow> nat \<Rightarrow> string list \<Rightarrow> regex \<Rightarrow> task \<Rightarrow> task \<times> world" where
  "step_task net soup w session kws rx (Not_started kerk_url) =
     process_kerk_url net soup w session kerk_url kws rx"
| "step_task net soup w session kws rx (Awaiting_main kerk_url c n) =
     (case await_end net w c n of (html_content, w1) \<Rightarrow>
        process_kerk_url_from net soup w1 session kerk_url kws rx (Inr html_content))"
| "step_task net soup w session kws rx (Awaiting_page kerk_url contact_pages emails c n) =
     (case await_end net w c n of (html_content, w1) \<Rightarrow>
        (case extract_emails_from_page w1 (contact_pages ! length emails) rx (Inr html_content) of
           (es, w2) \<Rightarrow>
             emails_comprehension net w2 session kerk_url contact_pages (emails @ [es]) rx))"
| "step_task net soup w session kws rx (Done kerk_url emails) = (Done kerk_url emails, w)"

section \<open>The batch\<close>

text \<open>\<^verbatim>\<open>kerk_emails[kerk_url] = emails\<close> on a dict: a key that is there keeps its place and
  gets the new value, a new key is put last.\<close>

fun dict_setitem :: "('k \<times> 'v) list \<Rightarrow> 'k \<Rightarrow> 'v \<Rightarrow> ('k \<times> 'v) list" where
  "dict_setitem [] k v = [(k, v)]"
| "dict_setitem ((k', v') # d) k v =
     (if k' = k then (k, v) # d else (k', v') # dict_setitem d k v)"

text \<open>
  \<^verbatim>\<open>
          for f in tqdm(asyncio.as_completed(tasks), total=len(tasks)):
              kerk_url, emails = await f
              kerk_emails[kerk_url] = emails
  \<close>
  The results are put into the dict as the tasks come to their end.
\<close>

fun collect :: "task \<Rightarrow> result_map \<Rightarrow> result_map" where
  "collect (Done kerk_url emails) kerk_emails = dict_setitem kerk_emails kerk_url emails"
| "collect (Not_started u) kerk_emails = kerk_emails"
| "collect (Awaiting_main u c n) kerk_emails = kerk_emails"
| "collect (Awaiting_page u pages emails c n) kerk_emails = kerk_emails"

text \<open>
  \<^verbatim>\<open>asyncio.as_completed\<close> makes a task of every coroutine, in the order of a Python set, and
  the event loop starts them all before any request can have been answered; then it resumes
  the waiting tasks one at a time, in the order in which the network answers. So the tasks
  that can run at an instant are those not started yet, if there are any, and those that
  wait, otherwise.
\<close>

definition runnable :: "task list \<Rightarrow> nat list" where
  "runnable tasks =
     (let not_started = filter (\<lambda>i. fresh (tasks ! i) = 1) [0..<length tasks]
      in if not_started = []
         then filter (\<lambda>i. at_main (tasks ! i) + pages_left (tasks ! i) > 0) [0..<length tasks]
         else not_started)"

text \<open>The seeds of the tasks that are done.\<close>

definition done_keys :: "task list \<Rightarrow> string set" where
  "done_keys tasks = kerk_url_of ` {t \<in> set tasks. is_done t}"

text \<open>
  A \<^verbatim>\<open>schedule\<close> says, for the n-th turn of the event loop, which of the tasks that can run
  is run (as an index into their list, taken modulo its length) and how many seconds have
  gone by since the turn before. Every order in which the tasks can be started and the
  requests answered is given by some schedule.
\<close>

type_synonym schedule = "nat \<Rightarrow> nat \<times> nat"

definition loop_measure :: "task list \<Rightarrow> nat \<times> nat \<times> nat" where
  "loop_measure tasks =
     (sum_list (map fresh tasks), sum_list (map at_main tasks), sum_list (map pages_left tasks))"

text \<open>Each step of a task makes the measure smaller: a started task is never unstarted
  again, a task past \<^verbatim>\<open>get_contact_page_urls\<close> does not come back to it, and a resumed
  comprehension has one page less to go.\<close>

lemma emails_comprehension_measure:
  "fresh (fst (emails_comprehension net w session u pages emails rx)) = 0 \<and>
   at_main (fst (emails_comprehension net w session u pages emails rx)) = 0 \<and>
   pages_left (fst (emails_comprehension net w session u pages emails rx))
     \<le> (if length emails < length pages then Suc (length pages - length emails) else 0)"
proof (induction net w session u pages emails rx rule: emails_comprehension.induct)
  case (1 net w session u pages emails rx)
  show ?case
  proof (cases "length pages \<le> length emails")
    case True
    then show ?thesis by (subst (1 2 3) emails_comprehension.simps) simp
  next
    case False
    obtain c w1 where f: "fetch w session (pages ! length emails) = (c, w1)"
      by (cases "fetch w session (pages ! length emails)")
    obtain a w2 where b: "await_begin net w1 c = (a, w2)"
      by (cases "await_begin net w1 c")
    show ?thesis
    proof (cases a)
      case (Waiting n)
      then show ?thesis using False f b
        by (subst (1 2 3) emails_comprehension.simps) simp
    next
      case (Raised_by_await e)
      obtain es w3 where x:
        "extract_emails_from_page w2 (pages ! length emails) rx (Inl e) = (es, w3)"
        by (cases "extract_emails_from_page w2 (pages ! length emails) rx (Inl e)")
      from "1.IH"(1)[OF False refl f[symmetric] b[symmetric] Raised_by_await x[symmetric]]
      show ?thesis using False f b Raised_by_await x
        by (subst (1 2 3) emails_comprehension.simps) (auto split: if_splits)
    next
      case (Returned t)
      obtain es w3 where x:
        "extract_emails_from_page w2 (pages ! length emails) rx (Inr t) = (es, w3)"
        by (cases "extract_emails_from_page w2 (pages ! length emails) rx (Inr t)")
      from "1.IH"(2)[OF False refl f[symmetric] b[symmetric] Returned x[symmetric]]
      show ?thesis using False f b Returned x
        by (subst (1 2 3) emails_comprehension.simps) (auto split: if_splits)
    qed
  qed
qed

lemma step_task_measure:
  "fresh (fst (step_task net soup w session kws rx t)) = 0 \<and>
   (fresh t = 0 \<longrightarrow> at_main (fst (step_task net soup w session kws rx t)) = 0) \<and>
   (0 < pages_left t \<longrightarrow>
      pages_left (fst (step_task net soup w session kws rx t)) < pages_left t)"
proof (cases t)
  case (Not_started u)
  then show ?thesis
    using emails_comprehension_measure[of net _ session u _ "[]" rx]
    by (auto simp: process_kerk_url_def process_kerk_url_from_def
             split: prod.splits awaited.splits)
next
  case (Awaiting_main u c n)
  then show ?thesis
    using emails_comprehension_measure[of net _ session u _ "[]" rx]
    by (auto simp: process_kerk_url_from_def split: prod.splits)
next
  case (Awaiting_page u pages emails c n)
  obtain html w1 where e: "await_end net w c n = (html, w1)"
    by (cases "await_end net w c n")
  obtain es w2 where x:
    "extract_emails_from_page w1 (pages ! length emails) rx (Inr html) = (es, w2)"
    by (cases "extract_emails_from_page w1 (pages ! length emails) rx (Inr html)")
  let ?r = "fst (emails_comprehension net w2 session u pages (emails @ [es]) rx)"
  have s: "fst (step_task net soup w session kws rx t) = ?r"
    using Awaiting_page e x by simp
  from emails_comprehension_measure[of net w2 session u pages "emails @ [es]" rx]
  have "fresh ?r = 0" and "at_main ?r = 0" and "pages_left ?r < Suc (length pages - length emails)"
    by (auto split: if_splits)
  then show ?thesis using Awaiting_page s by simp
next
  case (Done u emails)
  then show ?thesis by simp
qed

lemma sum_list_map_update:
  fixes f :: "'a \<Rightarrow> nat"
  shows "i < length xs \<Longrightarrow> sum_list (map f (xs[i := t])) + f (xs ! i) = sum_list (map f xs) + f t"
proof (induction xs arbitrary: i)
  case Nil
  then show ?case by simp
next
  case (Cons x xs)
  then show ?case by (cases i) auto
qed

lemma runnable_cases:
  assumes "i \<in> set (runnable tasks)"
  shows "i < length tasks \<and>
         (fresh (tasks ! i) = 1 \<or>
          (fresh (tasks ! i) = 0 \<and> 0 < at_main (tasks ! i) + pages_left (tasks ! i)))"
proof (cases "filter (\<lambda>i. fresh (tasks ! i) = 1) [0..<length tasks] = []")
  case True
  with assms have i: "i < length tasks" and p: "0 < at_main (tasks ! i) + pages_left (tasks ! i)"
    by (auto simp: runnable_def)
  from True i have "fresh (tasks ! i) \<noteq> 1" by (auto simp: filter_empty_conv)
  then have "fresh (tasks ! i) = 0" by (cases "tasks ! i") auto
  with i p show ?thesis by simp
next
  case False
  with assms show ?thesis by (auto simp: runnable_def)
qed

lemma loop_measure_decreases:
  assumes "i \<in> set (runnable tasks)"
  shows "(loop_measure (tasks[i := fst (step_task net soup w session kws rx (tasks ! i))]),
          loop_measure tasks) \<in> less_than <*lex*> less_than <*lex*> less_than"
proof -
  let ?t = "fst (step_task net soup w session kws rx (tasks ! i))"
  from runnable_cases[OF assms] have i: "i < length tasks" by simp
  note m = step_task_measure[of net soup w session kws rx "tasks ! i"]
  note u1 = sum_list_map_update[OF i, of fresh ?t]
  note u2 = sum_list_map_update[OF i, of at_main ?t]
  note u3 = sum_list_map_update[OF i, of pages_left ?t]
  consider (a) "fresh (tasks ! i) = 1"
    | (b) "fresh (tasks ! i) = 0" "at_main (tasks ! i) = 1"
    | (c) "fresh (tasks ! i) = 0" "at_main (tasks ! i) = 0" "0 < pages_left (tasks ! i)"
    using runnable_cases[OF assms] by (cases "tasks ! i") auto
  then show ?thesis
  proof cases
    case a
    with m u1 show ?thesis by (simp add: loop_measure_def)
  next
    case b
    with m u1 u2 show ?thesis by (simp add: loop_measure_def)
  next
    case c
    with m u1 u2 u3 show ?thesis by (simp add: loop_measure_def)
  qed
qed

lemma loop_measure_step:
  assumes "runnable tasks \<noteq> []"
    and "i = runnable tasks ! (k mod length (runnable tasks))"
    and "(t, w1) = step_task net soup w0 session kws rx (tasks ! i)"
  shows "(loop_measure (tasks[i := t]), loop_measure tasks)
           \<in> less_than <*lex*> less_than <*lex*> less_than"
proof -
  from assms(1,2) have "i \<in> set (runnable tasks)" by simp
  moreover from assms(3) have "fst (step_task net soup w0 session kws rx (tasks ! i)) = t"
    by (metis fst_conv)
  ultimately show ?thesis
    using loop_measure_decreases[of i tasks net soup w0 session kws rx] by simp
qed

text \<open>
  The event loop: as long as a task can run, the schedule chooses one, the clock moves on,
  the task makes its step, and the result of a task that is done goes into the dict.
\<close>

function event_loop ::
  "schedule \<Rightarrow> nat \<Rightarrow> network \<Rightarrow> parser \<Rightarrow> world \<Rightarrow> nat \<Rightarrow> task list \<Rightarrow> string list \<Rightarrow> regex
     \<Rightarrow> result_map \<Rightarrow> result_map \<times> world" where
  "event_loop sched n net soup w session tasks contact_page_keywords email_regex kerk_emails =
     (if runnable tasks = [] then (kerk_emails, w)
      else
        (let i = runnable tasks ! (fst (sched n) mod length (runnable tasks));
             w0 = w\<lparr>now := now w + snd (sched n)\<rparr>
         in case step_task net soup w0 session contact_page_keywords email_regex (tasks ! i) of
              (t, w1) \<Rightarrow>
                event_loop sched (Suc n) net soup w1 session (tasks[i := t])
                  contact_page_keywords email_regex (collect t kerk_emails)))"
  by pat_completeness auto
termination
  apply (relation "inv_image (less_than <*lex*> less_than <*lex*> less_than)
                   (\<lambda>(sched, n, net, soup, w, session, tasks, kws, rx, d). loop_measure tasks)")
   apply (intro wf_inv_image wf_lex_prod wf_less_than)
  apply (simp only: in_inv_image prod.case)
  apply (rule loop_measure_step)
    apply assumption
   apply (rule refl)
  apply assumption
  done

declare event_loop.simps [simp del]

text \<open>
  \<^verbatim>\<open>
  async def main(kerk_urls, contact_page_keywords, email_regex):
      kerk_emails = {}
      async with aiohttp.ClientSession() as session:
          tasks = [process_kerk_url(session, kerk_url, contact_page_keywords, email_regex)
                   for kerk_url in kerk_urls]
          for f in tqdm(asyncio.as_completed(tasks), total=len(tasks)): ...
      return kerk_emails
  \<close>
\<close>

definition main ::
  "schedule \<Rightarrow> network \<Rightarrow> parser \<Rightarrow> world \<Rightarrow> string list \<Rightarrow> string list \<Rightarrow> regex
     \<Rightarrow> result_map \<times> world" where
  "main sched net soup w kerk_urls contact_page_keywords email_regex =
     (let session = sessions w;
          w0 = w\<lparr>sessions := Suc session\<rparr>
      in event_loop sched 0 net soup w0 session (map Not_started kerk_urls)
           contact_page_keywords email_regex [])"

text \<open>The state of the process when the script starts.\<close>

definition start :: world where
  "start = \<lparr>now = 0, cache = [], allocated = 0, coroutines = (\<lambda>c. ([], Created)),
            requests = [], log = [], sessions = 0\<rparr>"

text \<open>The keywords of the script.\<close>

definition contact_page_keywords :: "string list" where
  "contact_page_keywords =
     [''contact'', ''about'', ''over ons'', ''anbi'', ''gegevens'', ''info'', ''wie'', ''geven'',
      ''give'', ''gift'', ''donatie'', ''doneren'', ''doneer'', ''mail'']"

section \<open>An example site\<close>

text \<open>
  A home page with the same contact link in its menu and in its footer, the contact page, a
  page that answers with status 300 (Multiple Choices, which aiohttp does not follow), and
  status 404 for every other URL that begins with \<^verbatim>\<open>http\<close>; a string that does not is not a
  URL for \<^verbatim>\<open>session.get\<close>.
\<close>

definition home_html :: string where
  "home_html = ''<a href=https://example.org/contact>Contact</a><a name=top>News</a><a href=https://example.org/contact>Contact</a>''"

definition example_net :: network where
  "example_net n url =
     (if url = ''https://example.org'' then Response 200 (Text home_html)
      else if url = ''https://example.org/contact''
        then Response 200 (Text ''Reach us at info@example.org.'')
      else if url = ''https://example.org/choices''
        then Response 300 (Text ''<a href=/nl>NL</a>'')
      else if starts_with url ''http'' then Response 404 (Text ''Not Found'')
      else Invalid url)"

definition example_soup :: parser where
  "example_soup html =
     (if html = home_html
      then Inr [Some ''https://example.org/contact'', None, Some ''https://example.org/contact'']
      else Inr [])"



text \<open>The state in which the coroutine 0 waits for the answer to the request 0, for a page
  that is not there.\<close>

definition example_missing :: world where
  "example_missing =
     snd (await_begin example_net (snd (fetch start 0 ''https://example.org/missing'')) 0)"

text \<open>The state after \<^verbatim>\<open>await fetch(session, "https://example.org/contact")\<close> has given
  the text of the contact page for the first time.\<close>

definition example_fetched :: world where
  "example_fetched =
     snd (await_end example_net
            (snd (await_begin example_net (snd (fetch start 0 ''https://example.org/contact'')) 0))
            0 0)"

text \<open>The schedule that always runs the first task that can run, one second after the turn
  before.\<close>

definition first_come :: schedule where
  "first_come n = (0, 1)"

section \<open>Properties of the regular expressions\<close>

lemmas char_classes =
  in_range_def alpha_def alnum_def local_char_def domain_char_def space_def host_start_def
  dot_def lit_def one_def opt_def star_def plus_def at_least_def






lemma try_counts_Some:
  "try_counts k lo m = Some r \<Longrightarrow> \<exists>j. lo \<le> j \<and> j \<le> m \<and> k j = Some r"
proof (induction m)
  case 0
  then show ?case
    by (subst (asm) try_counts.simps) (auto simp del: try_counts.simps split: if_splits option.splits)
next
  case (Suc m)
  from Suc.prems consider "k (Suc m) = Some r" "lo \<le> Suc m" | "try_counts k lo m = Some r"
    by (subst (asm) try_counts.simps)
       (auto simp del: try_counts.simps split: if_splits option.splits)
  then show ?case
  proof cases
    case 1
    then show ?thesis by blast
  next
    case 2
    from Suc.IH[OF this] show ?thesis by (meson le_Suc_eq)
  qed
qed

lemma length_takeWhile_take:
  "length (takeWhile p (take m s)) = min m (length (takeWhile p s))"
proof (induction s arbitrary: m)
  case Nil
  show ?case by simp
next
  case (Cons x s)
  show ?case by (cases m) (simp_all add: Cons.IH)
qed

lemma match_here_fullmatch:
  "match_here ps s = Some n \<Longrightarrow> n \<le> length s \<and> re_fullmatch ps (take n s)"
proof (induction ps arbitrary: s n)
  case Nil
  then show ?case by simp
next
  case (Cons a ps)
  obtain p lo hi where a: "a = (p, lo, hi)" by (cases a)
  define avail where "avail = length (takeWhile p s)"
  define most where "most = (case hi of None \<Rightarrow> avail | Some h \<Rightarrow> min h avail)"
  have "try_counts (\<lambda>m. map_option (\<lambda>r. m + r) (match_here ps (drop m s))) lo most = Some n"
    using Cons.prems unfolding most_def avail_def a
    by (simp add: Let_def del: try_counts.simps)
  from try_counts_Some[OF this] obtain j r where j: "lo \<le> j" "j \<le> most"
    and m: "match_here ps (drop j s) = Some r" and n: "n = j + r"
    by auto
  from Cons.IH[OF m] have r: "r \<le> length (drop j s)" and f: "re_fullmatch ps (take r (drop j s))"
    by simp_all
  have ja: "j \<le> avail" using j(2) by (auto simp: most_def split: option.splits)
  have "avail \<le> length s" unfolding avail_def by (rule length_takeWhile_le)
  with ja r have nl: "n \<le> length s" by (simp add: n)
  define avail' where "avail' = length (takeWhile p (take n s))"
  define most' where "most' = (case hi of None \<Rightarrow> avail' | Some h \<Rightarrow> min h avail')"
  have "avail' = min n avail" by (simp add: avail'_def avail_def length_takeWhile_take)
  with ja have "j \<le> avail'" by (simp add: n)
  with j(2) have "j \<le> most'" by (auto simp: most'_def most_def split: option.splits)
  with j(1) have mem: "j \<in> set [lo..<Suc most']" by (simp del: upt_Suc)
  have "drop j (take n s) = take r (drop j s)" by (simp add: n drop_take)
  with f have "re_fullmatch ps (drop j (take n s))" by simp
  with mem have "list_ex (\<lambda>m. re_fullmatch ps (drop m (take n s))) [lo..<Suc most']"
    unfolding list_ex_iff by blast
  then have "re_fullmatch (a # ps) (take n s)"
    unfolding a most'_def avail'_def by (simp add: Let_def del: upt_Suc)
  with nl show ?case by simp
qed

lemma re_findall_fullmatch: "x \<in> set (re_findall ps s) \<Longrightarrow> re_fullmatch ps x"
proof (induction ps s rule: re_findall.induct)
  case (1 ps)
  show ?case
  proof (cases "match_here ps []")
    case None
    with 1 show ?thesis by simp
  next
    case (Some n)
    with 1 have "x = []" by simp
    with match_here_fullmatch[OF Some] show ?thesis by simp
  qed
next
  case (2 ps c s)
  show ?case
  proof (cases "match_here ps (c # s)")
    case None
    with 2 show ?thesis by simp
  next
    case (Some n)
    show ?thesis
    proof (cases n)
      case 0
      with Some 2 match_here_fullmatch[of ps "c # s" 0] show ?thesis by auto
    next
      case (Suc m)
      with Some 2 match_here_fullmatch[of ps "c # s" "Suc m"] show ?thesis by auto
    qed
  qed
qed
section \<open>Properties of the batch\<close>

lemmas world_defs =
  fetch_def await_begin_def await_end_def finish_fetch_def fetch_returns_def
  emails_comprehension.simps event_loop.simps cache_getitem_def cache_setitem_def start_def
  maxsize_def ttl_def

lemmas example_defs = example_net_def example_soup_def home_html_def first_come_def

lemmas task_defs =
  process_kerk_url_def process_kerk_url_from_def get_contact_page_urls_def
  extract_emails_from_page_def find_all_a_href_def List.map_filter_def lower_def lower_char_def
  char_of_def bit_Suc_0_iff runnable_def main_def

lemma emails_comprehension_seed:
  "kerk_url_of (fst (emails_comprehension net w session u pages emails rx)) = u"
proof (induction net w session u pages emails rx rule: emails_comprehension.induct)
  case (1 net w session u pages emails rx)
  show ?case
  proof (cases "length pages \<le> length emails")
    case True
    then show ?thesis by (subst emails_comprehension.simps) simp
  next
    case False
    obtain c w1 where f: "fetch w session (pages ! length emails) = (c, w1)"
      by (cases "fetch w session (pages ! length emails)")
    obtain a w2 where b: "await_begin net w1 c = (a, w2)"
      by (cases "await_begin net w1 c")
    show ?thesis
    proof (cases a)
      case (Waiting n)
      then show ?thesis using False f b
        by (subst emails_comprehension.simps) simp
    next
      case (Raised_by_await e)
      obtain es w3 where x:
        "extract_emails_from_page w2 (pages ! length emails) rx (Inl e) = (es, w3)"
        by (cases "extract_emails_from_page w2 (pages ! length emails) rx (Inl e)")
      from "1.IH"(1)[OF False refl f[symmetric] b[symmetric] Raised_by_await x[symmetric]]
      show ?thesis using False f b Raised_by_await x
        by (subst emails_comprehension.simps) simp
    next
      case (Returned t)
      obtain es w3 where x:
        "extract_emails_from_page w2 (pages ! length emails) rx (Inr t) = (es, w3)"
        by (cases "extract_emails_from_page w2 (pages ! length emails) rx (Inr t)")
      from "1.IH"(2)[OF False refl f[symmetric] b[symmetric] Returned x[symmetric]]
      show ?thesis using False f b Returned x
        by (subst emails_comprehension.simps) simp
    qed
  qed
qed

lemma step_task_seed:
  "kerk_url_of (fst (step_task net soup w session kws rx t)) = kerk_url_of t"
  by (cases t)
     (auto simp: process_kerk_url_def process_kerk_url_from_def emails_comprehension_seed
           split: prod.splits awaited.splits)

lemma dict_setitem_keys: "fst ` set (dict_setitem d k v) = insert k (fst ` set d)"
proof (induction d)
  case Nil
  show ?case by simp
next
  case (Cons a d)
  obtain k' v' where a: "a = (k', v')" by (cases a)
  show ?case
  proof (cases "k' = k")
    case True
    then show ?thesis by (simp add: a)
  next
    case False
    then show ?thesis using Cons.IH by (simp add: a insert_commute)
  qed
qed

lemma dict_setitem_distinct:
  "distinct (map fst d) \<Longrightarrow> distinct (map fst (dict_setitem d k v))"
proof (induction d)
  case Nil
  show ?case by simp
next
  case (Cons a d)
  then show ?case by (cases a) (auto simp: dict_setitem_keys)
qed

lemma collect_keys:
  "fst ` set (collect t d) = (if is_done t then insert (kerk_url_of t) (fst ` set d) else fst ` set d)"
  by (cases t) (auto simp: dict_setitem_keys)

lemma collect_distinct: "distinct (map fst d) \<Longrightarrow> distinct (map fst (collect t d))"
  by (cases t) (auto simp: dict_setitem_distinct)

lemma runnable_empty_done:
  assumes "runnable tasks = []" and "t \<in> set tasks"
  shows "is_done t"
proof -
  from assms(2) obtain i where i: "i < length tasks" and t: "tasks ! i = t"
    by (auto simp: in_set_conv_nth)
  from assms(1) have a: "filter (\<lambda>i. fresh (tasks ! i) = 1) [0..<length tasks] = []"
    and b: "filter (\<lambda>i. 0 < at_main (tasks ! i) + pages_left (tasks ! i)) [0..<length tasks] = []"
    by (auto simp: runnable_def Let_def split: if_splits)
  from a i t have "fresh t \<noteq> 1" by (force simp: filter_empty_conv)
  moreover from b i t have "\<not> 0 < at_main t + pages_left t" by (force simp: filter_empty_conv)
  ultimately show ?thesis by (cases t) auto
qed

lemma runnable_not_done:
  assumes "i \<in> set (runnable tasks)"
  shows "i < length tasks \<and> \<not> is_done (tasks ! i)"
  using runnable_cases[OF assms] by (cases "tasks ! i") auto

lemma done_keys_update:
  assumes "i < length tasks" and "\<not> is_done (tasks ! i)" and "kerk_url_of t = kerk_url_of (tasks ! i)"
  shows "done_keys (tasks[i := t]) = (if is_done t then insert (kerk_url_of t) (done_keys tasks) else done_keys tasks)"
proof -
  have s: "set (tasks[i := t]) \<subseteq> insert t (set tasks)" by (rule set_update_subset_insert)
  have m: "t \<in> set (tasks[i := t])" using assms(1) by (rule set_update_memI)
  have k: "\<And>x. x \<in> set tasks \<Longrightarrow> is_done x \<Longrightarrow> x \<in> set (tasks[i := t])"
  proof -
    fix x assume "x \<in> set tasks" and d: "is_done x"
    then obtain j where j: "j < length tasks" "tasks ! j = x" by (auto simp: in_set_conv_nth)
    with d assms(2) have "j \<noteq> i" by auto
    with j have "tasks[i := t] ! j = x" by simp
    with j(1) show "x \<in> set (tasks[i := t])" by (metis length_list_update nth_mem)
  qed
  show ?thesis using s m k by (auto simp: done_keys_def)
qed

lemma map_seed_update:
  assumes "i < length tasks" and "kerk_url_of t = kerk_url_of (tasks ! i)"
  shows "map kerk_url_of (tasks[i := t]) = map kerk_url_of tasks"
proof -
  have "(map kerk_url_of tasks)[i := kerk_url_of t]
          = (map kerk_url_of tasks)[i := map kerk_url_of tasks ! i]"
    using assms by simp
  then show ?thesis by (simp add: map_update)
qed

lemma event_loop_keys:
  "distinct (map fst d) \<Longrightarrow> fst ` set d = done_keys tasks \<Longrightarrow>
   distinct (map fst (fst (event_loop sched n net soup w session tasks kws rx d))) \<and>
   fst ` set (fst (event_loop sched n net soup w session tasks kws rx d)) = set (map kerk_url_of tasks)"
proof (induction sched n net soup w session tasks kws rx d rule: event_loop.induct)
  case (1 sched n net soup w session tasks kws rx d)
  show ?case
  proof (cases "runnable tasks = []")
    case True
    then have "done_keys tasks = kerk_url_of ` set tasks"
      using runnable_empty_done[OF True] by (auto simp: done_keys_def)
    with True "1.prems" show ?thesis by (subst (1 2) event_loop.simps) simp
  next
    case False
    define i where "i = runnable tasks ! (fst (sched n) mod length (runnable tasks))"
    define w0 where "w0 = w\<lparr>now := now w + snd (sched n)\<rparr>"
    obtain t w1 where s: "step_task net soup w0 session kws rx (tasks ! i) = (t, w1)"
      by (cases "step_task net soup w0 session kws rx (tasks ! i)")
    from False have "i \<in> set (runnable tasks)" by (simp add: i_def)
    from runnable_not_done[OF this] have i: "i < length tasks" and nd: "\<not> is_done (tasks ! i)"
      by simp_all
    have seed: "kerk_url_of t = kerk_url_of (tasks ! i)"
      using step_task_seed[of net soup w0 session kws rx "tasks ! i"] s by simp
    have d1: "distinct (map fst (collect t d))" using "1.prems"(1) by (rule collect_distinct)
    have d2: "fst ` set (collect t d) = done_keys (tasks[i := t])"
      using "1.prems"(2) by (simp add: collect_keys done_keys_update[OF i nd seed])
    note IH = "1.IH"[OF False i_def w0_def s[symmetric] d1 d2]
    have unfold: "event_loop sched n net soup w session tasks kws rx d =
        event_loop sched (Suc n) net soup w1 session (tasks[i := t]) kws rx (collect t d)"
      using False s by (subst event_loop.simps) (simp add: i_def[symmetric] w0_def[symmetric] Let_def)
    show ?thesis unfolding unfold using IH by (simp add: map_seed_update[OF i seed])
  qed
qed

lemma main_keys:
  "distinct (map fst (fst (main sched net soup w kerk_urls kws rx))) \<and>
   fst ` set (fst (main sched net soup w kerk_urls kws rx)) = set kerk_urls"
proof -
  have "done_keys (map Not_started kerk_urls) = {}" by (auto simp: done_keys_def)
  then show ?thesis
    using event_loop_keys[of "[]" "map Not_started kerk_urls" sched 0 net soup
        "w\<lparr>sessions := Suc (sessions w)\<rparr>" "sessions w" kws rx]
    by (simp add: main_def Let_def comp_def)
qed


text \<open>
  Claim C3: for every list of seed URLs, every schedule of the event loop, every network and
  every parser, the dict that \<^verbatim>\<open>main\<close> returns has the seeds of the list as its keys, each
  of them once, and no other key.
\<close>

theorem result_map_keys:
  "distinct (map fst (fst (main sched net soup w kerk_urls kws rx))) \<and>
   set (map fst (fst (main sched net soup w kerk_urls kws rx))) = set kerk_urls"
  using main_keys[of sched net soup w kerk_urls kws rx] by simp

theorem result_map_keys_witness:
  "distinct (map fst (fst (main first_come example_net example_soup start
      [''https://example.org'', ''https://example.org/choices'', ''https://example.org'']
      contact_page_keywords EMAIL_REGEX))) \<and>
   set (map fst (fst (main first_come example_net example_soup start
      [''https://example.org'', ''https://example.org/choices'', ''https://example.org'']
      contact_page_keywords EMAIL_REGEX))) = {''https://example.org'', ''https://example.org/choices''}"
  using result_map_keys[of first_come example_net example_soup start
      "[''https://example.org'', ''https://example.org/choices'', ''https://example.org'']"
      contact_page_keywords EMAIL_REGEX]
  by auto




section \<open>Properties of the fetcher\<close>

lemma fetch_miss:
  assumes "fst (cache_getitem (session, url) w) = None"
  shows "coroutines (snd (fetch w session url)) (fst (fetch w session url)) = (url, Created)"
    and "requests (snd (fetch w session url)) = requests w"
proof -
  obtain w1 where g: "cache_getitem (session, url) w = (None, w1)"
    using assms by (cases "cache_getitem (session, url) w") auto
  have r: "requests w1 = requests w"
    using g by (auto simp: cache_getitem_def Let_def split: option.splits if_splits)
  show "coroutines (snd (fetch w session url)) (fst (fetch w session url)) = (url, Created)"
    by (simp add: fetch_def g Let_def cache_setitem_def)
  show "requests (snd (fetch w session url)) = requests w"
    by (simp add: fetch_def g Let_def cache_setitem_def r)
qed

lemma await_end_text:
  "fst (await_end net w c n) =
     (case net n (fst (coroutines w c)) of
        Invalid msg \<Rightarrow> []
      | Raises msg \<Rightarrow> []
      | Response status b \<Rightarrow>
          if 400 \<le> status then [] else (case b of Text t \<Rightarrow> t | Unreadable msg \<Rightarrow> []))"
  by (simp add: await_end_def finish_fetch_def fetch_returns_def Let_def
           split: http_outcome.splits body.splits)

text \<open>The run of \<^verbatim>\<open>main\<close> on the example site, for the one seed \<^verbatim>\<open>https://example.org\<close>.\<close>

lemma example_run:
  "fst (main first_come example_net example_soup start [''https://example.org'']
          contact_page_keywords EMAIL_REGEX)
     = [(''https://example.org'',
         [[''info@example.org''], [''cannot reuse already awaited coroutine'']])]"
  "requests (snd (main first_come example_net example_soup start [''https://example.org'']
                    contact_page_keywords EMAIL_REGEX))
     = [''https://example.org'', ''https://example.org/contact'']"
  by (simp_all add: world_defs example_defs task_defs contact_page_keywords_def EMAIL_REGEX_def
        char_classes Let_def)

text \<open>The run for a seed that is listed twice. Both tasks are started before the home page
  is there: the second one finds the coroutine of the first in the cache while it is being
  awaited, takes the message of the RuntimeError for its only contact page, finds nothing
  there and is done first; the entry it makes is replaced when the first task is done.\<close>

lemma example_run_twice:
  "fst (main first_come example_net example_soup start
          [''https://example.org'', ''https://example.org''] contact_page_keywords EMAIL_REGEX)
     = [(''https://example.org'',
         [[''info@example.org''], [''cannot reuse already awaited coroutine'']])]"
  "requests (snd (main first_come example_net example_soup start
                    [''https://example.org'', ''https://example.org'']
                    contact_page_keywords EMAIL_REGEX))
     = [''https://example.org'', ''coroutine is being awaited already'',
        ''https://example.org/contact'']"
  by (simp_all add: world_defs example_defs task_defs contact_page_keywords_def EMAIL_REGEX_def
        char_classes Let_def)

text \<open>
  Claim C1 does not hold of the code. \<^verbatim>\<open>fetch\<close> is an \<^verbatim>\<open>async def\<close> under \<^verbatim>\<open>@cached(cache)\<close>,
  so what the cache holds for the key \<^verbatim>\<open>(session, url)\<close> is the coroutine object of the first
  call, not its text. A second call within the time to live gives that same object, and the
  \<^verbatim>\<open>await\<close> on it does not give the text of the first call: it raises RuntimeError. On the
  example site the first \<^verbatim>\<open>await fetch\<close> of the contact page gives its text; the second call
  makes no request, returns the coroutine object 0 again, and its \<^verbatim>\<open>await\<close> raises. In the run
  of \<^verbatim>\<open>main\<close> the home page has the contact link twice: the first email list is the one of
  the page and the second holds the message of the exception, after two requests in all.
  When the seed is listed twice, the task started second meets the coroutine of the home
  page while it is being awaited: it is given no text either, and what it passes to
  \<^verbatim>\<open>session.get\<close> as its contact page is the message of the exception.
\<close>

theorem cached_coroutine_awaited_twice:
  "fst (fetch start 0 ''https://example.org/contact'') = 0 \<and>
   fst (await_begin example_net (snd (fetch start 0 ''https://example.org/contact'')) 0)
     = Waiting 0 \<and>
   fst (await_end example_net
          (snd (await_begin example_net (snd (fetch start 0 ''https://example.org/contact'')) 0))
          0 0) = ''Reach us at info@example.org.'' \<and>
   fst (fetch example_fetched 0 ''https://example.org/contact'') = 0 \<and>
   fst (await_begin example_net (snd (fetch example_fetched 0 ''https://example.org/contact'')) 0)
     = Raised_by_await (RuntimeError ''cannot reuse already awaited coroutine'') \<and>
   requests (snd (await_begin example_net
                    (snd (fetch example_fetched 0 ''https://example.org/contact'')) 0))
     = [''https://example.org/contact''] \<and>
   fst (main first_come example_net example_soup start [''https://example.org'']
          contact_page_keywords EMAIL_REGEX)
     = [(''https://example.org'',
         [[''info@example.org''], [''cannot reuse already awaited coroutine'']])] \<and>
   requests (snd (main first_come example_net example_soup start [''https://example.org'']
                    contact_page_keywords EMAIL_REGEX))
     = [''https://example.org'', ''https://example.org/contact''] \<and>
   requests (snd (main first_come example_net example_soup start
                    [''https://example.org'', ''https://example.org'']
                    contact_page_keywords EMAIL_REGEX))
     = [''https://example.org'', ''coroutine is being awaited already'',
        ''https://example.org/contact'']"
  by (intro conjI)
     (simp_all only: example_run example_run_twice,
      simp_all add: example_fetched_def world_defs example_net_def Let_def)

text \<open>
  Claim C2, as the spec states it, asks for the empty string on every status that is not 2xx.
  \<^verbatim>\<open>raise_for_status\<close> raises for the statuses from 400 on only: a response with status 300,
  which aiohttp does not follow, gives its body.
\<close>

theorem status_300_returns_body:
  "fst (fetch_returns (Response 300 (Text ''<a href=/nl>NL</a>''))) = ''<a href=/nl>NL</a>'' \<and>
   fst (await_begin example_net (snd (fetch start 0 ''https://example.org/choices''))
          (fst (fetch start 0 ''https://example.org/choices''))) = Waiting 0 \<and>
   fst (await_end example_net
          (snd (await_begin example_net (snd (fetch start 0 ''https://example.org/choices''))
                  (fst (fetch start 0 ''https://example.org/choices''))))
          (fst (fetch start 0 ''https://example.org/choices'')) 0) = ''<a href=/nl>NL</a>''"
  by (simp add: world_defs example_defs Let_def)

text \<open>
  Claim C2, amended: a call of \<^verbatim>\<open>fetch\<close> that is not served from the cache makes a new
  coroutine, and the \<^verbatim>\<open>await\<close> on it does not raise. It makes one request, the next of the run.
  When \<^verbatim>\<open>session.get\<close> refuses the URL the \<^verbatim>\<open>await\<close> gives the empty string at once; otherwise
  the task waits for the request, and when it is resumed the \<^verbatim>\<open>await\<close> gives the empty string
  if the request has raised, if the status is 400 or more, or if the body cannot be read, and
  the text of the body for every status below 400.
\<close>

theorem fetch_not_from_cache:
  assumes "fst (cache_getitem (session, url) w) = None"
  shows "fst (await_begin net (snd (fetch w session url)) (fst (fetch w session url))) =
           (case net (length (requests w)) url of
              Invalid msg \<Rightarrow> Returned []
            | Raises msg \<Rightarrow> Waiting (length (requests w))
            | Response status b \<Rightarrow> Waiting (length (requests w))) \<and>
         (\<forall>w' :: world. fst (coroutines w' (fst (fetch w session url))) = url \<longrightarrow>
            fst (await_end net w' (fst (fetch w session url)) (length (requests w))) =
              (case net (length (requests w)) url of
                 Invalid msg \<Rightarrow> []
               | Raises msg \<Rightarrow> []
               | Response status b \<Rightarrow>
                   if 400 \<le> status then []
                   else (case b of Text t \<Rightarrow> t | Unreadable msg \<Rightarrow> [])))"
proof (intro conjI allI impI)
  show "fst (await_begin net (snd (fetch w session url)) (fst (fetch w session url))) =
           (case net (length (requests w)) url of
              Invalid msg \<Rightarrow> Returned []
            | Raises msg \<Rightarrow> Waiting (length (requests w))
            | Response status b \<Rightarrow> Waiting (length (requests w)))"
    using fetch_miss[OF assms]
    by (simp add: await_begin_def Let_def finish_fetch_def fetch_returns_def
             split: http_outcome.splits prod.splits)
next
  fix w' :: world assume "fst (coroutines w' (fst (fetch w session url))) = url"
  then show "fst (await_end net w' (fst (fetch w session url)) (length (requests w))) =
              (case net (length (requests w)) url of
                 Invalid msg \<Rightarrow> []
               | Raises msg \<Rightarrow> []
               | Response status b \<Rightarrow>
                   if 400 \<le> status then []
                   else (case b of Text t \<Rightarrow> t | Unreadable msg \<Rightarrow> []))"
    by (simp add: await_end_text)
qed

theorem fetch_not_from_cache_witness:
  "fst (cache_getitem (0, ''https://example.org/contact'') start) = None \<and>
   fst (await_begin example_net (snd (fetch start 0 ''https://example.org/contact''))
          (fst (fetch start 0 ''https://example.org/contact''))) = Waiting 0 \<and>
   fst (await_end example_net
          (snd (await_begin example_net (snd (fetch start 0 ''https://example.org/contact''))
                  (fst (fetch start 0 ''https://example.org/contact''))))
          (fst (fetch start 0 ''https://example.org/contact'')) 0)
     = ''Reach us at info@example.org.''"
proof -
  have m: "fst (cache_getitem (0, ''https://example.org/contact'') start) = None"
    by (simp add: cache_getitem_def start_def)
  have r: "length (requests start) = 0" by (simp add: start_def)
  have n: "example_net 0 ''https://example.org/contact''
             = Response 200 (Text ''Reach us at info@example.org.'')"
    by (simp add: example_net_def)
  have u: "fst (coroutines
                  (snd (await_begin example_net (snd (fetch start 0 ''https://example.org/contact''))
                          (fst (fetch start 0 ''https://example.org/contact''))))
                  (fst (fetch start 0 ''https://example.org/contact'')))
             = ''https://example.org/contact''"
    by (simp add: world_defs example_defs Let_def)
  from fetch_not_from_cache[OF m, of example_net] m u show ?thesis
    by (simp add: r n)
qed

section \<open>Properties of the link discoverer\<close>

lemma starts_with_iff: "starts_with s k \<longleftrightarrow> (\<exists>post. s = k @ post)"
  by (induction s k rule: starts_with.induct) auto

lemma str_in_iff: "str_in k s \<longleftrightarrow> (\<exists>pre post. s = pre @ k @ post)"
proof (induction s)
  case Nil
  show ?case by auto
next
  case (Cons c s)
  show ?case
  proof
    assume "str_in k (c # s)"
    then consider "starts_with (c # s) k" | "str_in k s" by (auto split: if_splits)
    then show "\<exists>pre post. c # s = pre @ k @ post"
    proof cases
      case 1
      then obtain post where "c # s = k @ post" using starts_with_iff by blast
      then have "c # s = [] @ k @ post" by simp
      then show ?thesis by blast
    next
      case 2
      then obtain pre post where "s = pre @ k @ post" using Cons.IH by blast
      then have "c # s = (c # pre) @ k @ post" by simp
      then show ?thesis by blast
    qed
  next
    assume "\<exists>pre post. c # s = pre @ k @ post"
    then obtain pre post where e: "c # s = pre @ k @ post" by blast
    show "str_in k (c # s)"
    proof (cases pre)
      case Nil
      with e have "starts_with (c # s) k" using starts_with_iff by auto
      then show ?thesis by simp
    next
      case (Cons a pre')
      with e have "s = pre' @ k @ post" by simp
      then have "str_in k s" using Cons.IH by blast
      then show ?thesis by simp
    qed
  qed
qed

text \<open>
  Claim C7, as the spec states it, compares the keywords without regard to case. The code
  lowers the \<^verbatim>\<open>href\<close> only, and looks for each keyword as it is written: the keyword
  \<^verbatim>\<open>Contact\<close> is found in no link, not even in \<^verbatim>\<open>https://example.org/contact\<close>, where it is
  found when both sides are lowered.
\<close>

theorem uppercase_keyword_never_matches:
  "fst (get_contact_page_urls example_soup start ''https://example.org'' [''Contact'']
          (Inr home_html)) = [] \<and>
   str_in (lower ''Contact'') (lower ''https://example.org/contact'')"
  by (simp add: task_defs example_defs)

text \<open>
  Claim C7, amended: when the \<^verbatim>\<open>await\<close> of the home page raises, or the parser raises, the
  result is the one-element list of the message of the exception. Otherwise it is the list
  of the \<^verbatim>\<open>href\<close> values of the \<^verbatim>\<open>a\<close> elements that have one, in document order and with
  their repetitions, of which those are kept whose lowered \<^verbatim>\<open>href\<close> has one of the keywords,
  as written, as a substring. For keywords written in lower case, as those of the script
  are, this is the comparison without regard to case.
\<close>

theorem contact_urls_characterised:
  "fst (get_contact_page_urls soup w main_url kws (Inl e)) = [str_e e] \<and>
   (soup html = Inl msg \<longrightarrow> fst (get_contact_page_urls soup w main_url kws (Inr html)) = [msg]) \<and>
   (soup html = Inr anchors \<longrightarrow>
      fst (get_contact_page_urls soup w main_url kws (Inr html)) =
        filter (\<lambda>href. \<exists>keyword \<in> set kws. \<exists>pre post. lower href = pre @ keyword @ post)
               (map the (filter (\<lambda>a. a \<noteq> None) anchors))) \<and>
   (soup html = Inr anchors \<and> (\<forall>keyword \<in> set kws. lower keyword = keyword) \<longrightarrow>
      fst (get_contact_page_urls soup w main_url kws (Inr html)) =
        filter (\<lambda>href. \<exists>keyword \<in> set kws. \<exists>pre post. lower href = pre @ lower keyword @ post)
               (map the (filter (\<lambda>a. a \<noteq> None) anchors)))"
  by (auto simp: get_contact_page_urls_def Let_def find_all_a_href_def List.map_filter_def
        list_ex_iff str_in_iff intro!: filter_cong)

theorem contact_urls_characterised_witness:
  "example_soup home_html =
     Inr [Some ''https://example.org/contact'', None, Some ''https://example.org/contact''] \<and>
   map lower contact_page_keywords = contact_page_keywords \<and>
   fst (get_contact_page_urls example_soup start ''https://example.org'' contact_page_keywords
          (Inr home_html))
     = [''https://example.org/contact'', ''https://example.org/contact'']"
proof -
  let ?anchors = "[Some ''https://example.org/contact'', None, Some ''https://example.org/contact'']"
  have s: "example_soup home_html = Inr ?anchors" by (simp add: example_soup_def)
  have k: "map lower contact_page_keywords = contact_page_keywords"
    by (simp add: contact_page_keywords_def lower_def lower_char_def)
  then have k': "\<forall>keyword \<in> set contact_page_keywords. lower keyword = keyword"
    by (metis (no_types) map_eq_conv map_ident)
  have f: "filter (\<lambda>href. \<exists>keyword \<in> set contact_page_keywords.
                      \<exists>pre post. lower href = pre @ lower keyword @ post)
                  (map the (filter (\<lambda>a. a \<noteq> None) ?anchors))
             = [''https://example.org/contact'', ''https://example.org/contact'']"
    by (simp add: str_in_iff[symmetric] contact_page_keywords_def lower_def lower_char_def
          char_of_def bit_Suc_0_iff)
  from contact_urls_characterised[of example_soup start "''https://example.org''"
      contact_page_keywords "RuntimeError []" home_html "[]" ?anchors] s k'
  have "fst (get_contact_page_urls example_soup start ''https://example.org''
               contact_page_keywords (Inr home_html)) =
        filter (\<lambda>href. \<exists>keyword \<in> set contact_page_keywords.
                      \<exists>pre post. lower href = pre @ lower keyword @ post)
               (map the (filter (\<lambda>a. a \<noteq> None) ?anchors))"
    by blast
  with f s k show ?thesis by simp
qed

section \<open>Properties of the tasks\<close>

lemma emails_comprehension_shape:
  "length emails \<le> length pages \<Longrightarrow>
   made_for u pages (fst (emails_comprehension net w session u pages emails rx)) \<and>
   take (length emails) (emails_of (fst (emails_comprehension net w session u pages emails rx)))
     = emails"
proof (induction net w session u pages emails rx rule: emails_comprehension.induct)
  case (1 net w session u pages emails rx)
  show ?case
  proof (cases "length pages \<le> length emails")
    case True
    then show ?thesis using "1.prems" by (subst (1 2) emails_comprehension.simps) simp
  next
    case False
    obtain c w1 where f: "fetch w session (pages ! length emails) = (c, w1)"
      by (cases "fetch w session (pages ! length emails)")
    obtain a w2 where b: "await_begin net w1 c = (a, w2)"
      by (cases "await_begin net w1 c")
    have step: "\<And>es w3. made_for u pages (fst (emails_comprehension net w3 session u pages (emails @ [es]) rx)) \<and>
        take (length (emails @ [es])) (emails_of (fst (emails_comprehension net w3 session u pages (emails @ [es]) rx))) = emails @ [es]
      \<Longrightarrow> made_for u pages (fst (emails_comprehension net w3 session u pages (emails @ [es]) rx)) \<and>
        take (length emails) (emails_of (fst (emails_comprehension net w3 session u pages (emails @ [es]) rx))) = emails"
    proof -
      fix es w3
      let ?r = "emails_of (fst (emails_comprehension net w3 session u pages (emails @ [es]) rx))"
      assume h: "made_for u pages (fst (emails_comprehension net w3 session u pages (emails @ [es]) rx)) \<and>
        take (length (emails @ [es])) ?r = emails @ [es]"
      have "take (length emails) ?r = take (length emails) (take (length (emails @ [es])) ?r)"
        by simp
      also have "\<dots> = emails" using h by simp
      finally show "made_for u pages (fst (emails_comprehension net w3 session u pages (emails @ [es]) rx)) \<and>
        take (length emails) ?r = emails" using h by simp
    qed
    have le: "length (emails @ [es]) \<le> length pages" for es :: "string list"
      using False by simp
    show ?thesis
    proof (cases a)
      case (Waiting n)
      then show ?thesis using False f b
        by (subst (1 2) emails_comprehension.simps) simp
    next
      case (Raised_by_await e)
      obtain es w3 where x:
        "extract_emails_from_page w2 (pages ! length emails) rx (Inl e) = (es, w3)"
        by (cases "extract_emails_from_page w2 (pages ! length emails) rx (Inl e)")
      from "1.IH"(1)[OF False refl f[symmetric] b[symmetric] Raised_by_await x[symmetric] le]
      have "made_for u pages (fst (emails_comprehension net w3 session u pages (emails @ [es]) rx)) \<and>
        take (length emails) (emails_of (fst (emails_comprehension net w3 session u pages (emails @ [es]) rx))) = emails"
        by (rule step)
      then show ?thesis using False f b Raised_by_await x
        by (subst (1 2) emails_comprehension.simps) simp
    next
      case (Returned t)
      obtain es w3 where x:
        "extract_emails_from_page w2 (pages ! length emails) rx (Inr t) = (es, w3)"
        by (cases "extract_emails_from_page w2 (pages ! length emails) rx (Inr t)")
      from "1.IH"(2)[OF False refl f[symmetric] b[symmetric] Returned x[symmetric] le]
      have "made_for u pages (fst (emails_comprehension net w3 session u pages (emails @ [es]) rx)) \<and>
        take (length emails) (emails_of (fst (emails_comprehension net w3 session u pages (emails @ [es]) rx))) = emails"
        by (rule step)
      then show ?thesis using False f b Returned x
        by (subst (1 2) emails_comprehension.simps) simp
    qed
  qed
qed


lemma step_page_shape:
  assumes "length emails < length pages"
  shows "made_for u pages (fst (step_task net soup w session kws rx (Awaiting_page u pages emails c n))) \<and>
         take (Suc (length emails))
           (emails_of (fst (step_task net soup w session kws rx (Awaiting_page u pages emails c n))))
           = emails @ [re_findall rx (fst (await_end net w c n))]"
proof -
  obtain html w1 where e: "await_end net w c n = (html, w1)"
    by (cases "await_end net w c n")
  have "length (emails @ [re_findall rx html]) \<le> length pages" using assms by simp
  from emails_comprehension_shape[OF this, of u net w1 session rx] e show ?thesis
    by (simp add: extract_emails_from_page_def)
qed






text \<open>
  Claim C10: on the empty string \<^verbatim>\<open>extract_emails_from_page\<close> finds no email: it returns the
  empty list and logs nothing, since the email pattern does not match the empty string. When
  the \<^verbatim>\<open>await\<close> of a candidate page gives the empty string, the email list that the task puts
  at the index of the page is empty. The \<^verbatim>\<open>await\<close> gives the empty string when the body of
  \<^verbatim>\<open>fetch\<close> has caught an exception, and when the body of the page is empty.
\<close>

theorem empty_page_gives_no_emails:
  "fst (extract_emails_from_page w url EMAIL_REGEX (Inr [])) = [] \<and>
   log (snd (extract_emails_from_page w url EMAIL_REGEX (Inr []))) = log w \<and>
   (fst (await_end net w c n) = [] \<and> length emails < length pages \<longrightarrow>
      take (Suc (length emails))
        (emails_of (fst (step_task net soup w session kws EMAIL_REGEX
                           (Awaiting_page u pages emails c n))))
        = emails @ [[]]) \<and>
   (snd (fetch_returns (net n (fst (coroutines w c)))) \<noteq> None \<or>
    net n (fst (coroutines w c)) = Response status (Text [])
      \<longrightarrow> fst (await_end net w c n) = [])"
proof -
  have m: "match_here EMAIL_REGEX [] = None" by (simp add: EMAIL_REGEX_def char_classes)
  have a: "fst (extract_emails_from_page w url EMAIL_REGEX (Inr [])) = []"
    and b: "log (snd (extract_emails_from_page w url EMAIL_REGEX (Inr []))) = log w"
    by (simp_all add: extract_emails_from_page_def m)
  have c: "fst (await_end net w c n) = [] \<and> length emails < length pages \<longrightarrow>
      take (Suc (length emails))
        (emails_of (fst (step_task net soup w session kws EMAIL_REGEX
                           (Awaiting_page u pages emails c n))))
        = emails @ [[]]"
    using step_page_shape[of emails pages u net soup w session kws EMAIL_REGEX c n]
    by (auto simp del: step_task.simps simp add: m)
  have d: "snd (fetch_returns (net n (fst (coroutines w c)))) \<noteq> None \<or>
    net n (fst (coroutines w c)) = Response status (Text [])
      \<longrightarrow> fst (await_end net w c n) = []"
    by (auto simp: await_end_text fetch_returns_def
             split: http_outcome.splits body.splits if_splits)
  from a b c d show ?thesis by blast
qed

theorem empty_page_gives_no_emails_witness:
  "example_net 0 (fst (coroutines example_missing 0)) = Response 404 (Text ''Not Found'') \<and>
   fst (await_end example_net example_missing 0 0) = [] \<and>
   emails_of (fst (step_task example_net example_soup example_missing 0 contact_page_keywords
      EMAIL_REGEX (Awaiting_page ''https://example.org'' [''https://example.org/missing''] [] 0 0)))
     = [[]]"
proof -
  let ?t = "fst (step_task example_net example_soup example_missing 0 contact_page_keywords
        EMAIL_REGEX (Awaiting_page ''https://example.org'' [''https://example.org/missing''] [] 0 0))"
  have o: "example_net 0 (fst (coroutines example_missing 0)) = Response 404 (Text ''Not Found'')"
    by (simp add: example_missing_def world_defs example_defs Let_def)
  then have e: "snd (fetch_returns (example_net 0 (fst (coroutines example_missing 0)))) \<noteq> None"
    by (simp add: fetch_returns_def)
  note inst = empty_page_gives_no_emails[of example_missing "''https://example.org/missing''"
      example_net 0 0 "[]" "[''https://example.org/missing'']" example_soup 0
      contact_page_keywords "''https://example.org''" 0]
  from inst e have t: "fst (await_end example_net example_missing 0 0) = []" by blast
  have "length ([] :: string list list) < length [''https://example.org/missing'']" by simp
  with inst t have k: "take (Suc (length ([] :: string list list))) (emails_of ?t) = [] @ [[]]"
    by blast
  have "made_for ''https://example.org'' [''https://example.org/missing''] ?t"
    using step_page_shape[of "[]" "[''https://example.org/missing'']" "''https://example.org''"
        example_net example_soup example_missing 0 contact_page_keywords EMAIL_REGEX 0 0]
    by simp
  then have "length (emails_of ?t) \<le> 1" by (cases ?t) auto
  with k have "emails_of ?t = [[]]" by simp
  with o t show ?thesis by simp
qed

text \<open>Every string of the dict that \<^verbatim>\<open>main\<close> returns is a match that \<^verbatim>\<open>re.findall\<close>
  gave or one of the two messages of the RuntimeError that an \<^verbatim>\<open>await\<close> raises.\<close>

lemma await_begin_raised:
  "fst (await_begin net w c) = Raised_by_await e \<Longrightarrow>
     str_e e = ''cannot reuse already awaited coroutine'' \<or>
     str_e e = ''coroutine is being awaited already''"
  by (auto simp: await_begin_def Let_def finish_fetch_def
           split: prod.splits coroutine_state.splits http_outcome.splits option.splits)

lemma emails_comprehension_all:
  assumes E1: "P ''cannot reuse already awaited coroutine''"
    and E2: "P ''coroutine is being awaited already''"
  shows "(\<forall>html x. x \<in> set (re_findall rx html) \<longrightarrow> P x) \<Longrightarrow>
         (\<forall>page \<in> set emails. \<forall>x \<in> set page. P x) \<Longrightarrow>
         (\<forall>page \<in> set (emails_of (fst (emails_comprehension net w session u pages emails rx))).
            \<forall>x \<in> set page. P x)"
proof (induction net w session u pages emails rx rule: emails_comprehension.induct)
  case (1 net w session u pages emails rx)
  note F = "1.prems"(1) and Q = "1.prems"(2)
  show ?case
  proof (cases "length pages \<le> length emails")
    case True
    then show ?thesis using Q by (subst emails_comprehension.simps) simp
  next
    case False
    obtain c w1 where f: "fetch w session (pages ! length emails) = (c, w1)"
      by (cases "fetch w session (pages ! length emails)")
    obtain a w2 where b: "await_begin net w1 c = (a, w2)"
      by (cases "await_begin net w1 c")
    show ?thesis
    proof (cases a)
      case (Waiting n)
      then show ?thesis using False f b Q
        by (subst emails_comprehension.simps) simp
    next
      case (Raised_by_await e)
      obtain es w3 where x:
        "extract_emails_from_page w2 (pages ! length emails) rx (Inl e) = (es, w3)"
        by (cases "extract_emails_from_page w2 (pages ! length emails) rx (Inl e)")
      from b Raised_by_await have "fst (await_begin net w1 c) = Raised_by_await e" by simp
      from await_begin_raised[OF this] E1 E2 have "P (str_e e)" by auto
      with x have "\<forall>y \<in> set es. P y" by (auto simp: extract_emails_from_page_def)
      with Q have p: "\<forall>page \<in> set (emails @ [es]). \<forall>x \<in> set page. P x" by auto
      from "1.IH"(1)[OF False refl f[symmetric] b[symmetric] Raised_by_await x[symmetric] F p]
      show ?thesis using False f b Raised_by_await x
        by (subst emails_comprehension.simps) simp
    next
      case (Returned t)
      obtain es w3 where x:
        "extract_emails_from_page w2 (pages ! length emails) rx (Inr t) = (es, w3)"
        by (cases "extract_emails_from_page w2 (pages ! length emails) rx (Inr t)")
      from x have "es = re_findall rx t" by (simp add: extract_emails_from_page_def)
      with F have "\<forall>y \<in> set es. P y" by blast
      with Q have p: "\<forall>page \<in> set (emails @ [es]). \<forall>x \<in> set page. P x" by auto
      from "1.IH"(2)[OF False refl f[symmetric] b[symmetric] Returned x[symmetric] F p]
      show ?thesis using False f b Returned x
        by (subst emails_comprehension.simps) simp
    qed
  qed
qed

lemma step_task_all:
  assumes F: "\<forall>html x. x \<in> set (re_findall rx html) \<longrightarrow> P x"
    and E1: "P ''cannot reuse already awaited coroutine''"
    and E2: "P ''coroutine is being awaited already''"
    and T: "\<forall>page \<in> set (emails_of t). \<forall>x \<in> set page. P x"
  shows "\<forall>page \<in> set (emails_of (fst (step_task net soup w session kws rx t))). \<forall>x \<in> set page. P x"
proof (cases t)
  case (Not_started u)
  have "\<forall>page \<in> set ([] :: string list list). \<forall>x \<in> set page. P x" by simp
  note c = emails_comprehension_all[where P = P and rx = rx and emails = "[]", OF E1 E2 F this]
  show ?thesis using Not_started c
    by (auto simp: process_kerk_url_def process_kerk_url_from_def split: prod.splits awaited.splits)
next
  case (Awaiting_main u c n)
  have "\<forall>page \<in> set ([] :: string list list). \<forall>x \<in> set page. P x" by simp
  note c = emails_comprehension_all[where P = P and rx = rx and emails = "[]", OF E1 E2 F this]
  show ?thesis using Awaiting_main c
    by (auto simp: process_kerk_url_from_def split: prod.splits)
next
  case (Awaiting_page u pages emails c n)
  obtain html w1 where e: "await_end net w c n = (html, w1)"
    by (cases "await_end net w c n")
  have "\<forall>page \<in> set (emails @ [re_findall rx html]). \<forall>x \<in> set page. P x"
    using T F Awaiting_page by auto
  note c = emails_comprehension_all[where P = P and rx = rx
      and emails = "emails @ [re_findall rx html]", OF E1 E2 F this]
  show ?thesis using Awaiting_page e c
    by (simp add: extract_emails_from_page_def)
next
  case (Done u emails)
  then show ?thesis using T by simp
qed

lemma dict_setitem_values: "snd ` set (dict_setitem d k v) \<subseteq> insert v (snd ` set d)"
proof (induction d)
  case Nil
  show ?case by simp
next
  case (Cons a d)
  obtain k' v' where a: "a = (k', v')" by (cases a)
  show ?case
  proof (cases "k' = k")
    case True
    then show ?thesis by (auto simp: a)
  next
    case False
    then show ?thesis using Cons.IH by (auto simp: a)
  qed
qed

lemma collect_all:
  assumes "\<forall>page \<in> set (emails_of t). \<forall>x \<in> set page. P x"
    and "\<forall>(u, vs) \<in> set d. \<forall>page \<in> set vs. \<forall>x \<in> set page. P x"
  shows "\<forall>(u, vs) \<in> set (collect t d). \<forall>page \<in> set vs. \<forall>x \<in> set page. P x"
proof (cases t)
  case (Done u emails)
  have "\<And>k vs. (k, vs) \<in> set (dict_setitem d u emails) \<Longrightarrow> vs = emails \<or> vs \<in> snd ` set d"
    using dict_setitem_values[of d u emails] by force
  then show ?thesis using assms Done by fastforce
qed (use assms in auto)

lemma event_loop_all:
  assumes E1: "P ''cannot reuse already awaited coroutine''"
    and E2: "P ''coroutine is being awaited already''"
  shows "(\<forall>html x. x \<in> set (re_findall rx html) \<longrightarrow> P x) \<Longrightarrow>
         (\<forall>t \<in> set tasks. \<forall>page \<in> set (emails_of t). \<forall>x \<in> set page. P x) \<Longrightarrow>
         (\<forall>(u, vs) \<in> set d. \<forall>page \<in> set vs. \<forall>x \<in> set page. P x) \<Longrightarrow>
         (\<forall>(u, vs) \<in> set (fst (event_loop sched n net soup w session tasks kws rx d)).
            \<forall>page \<in> set vs. \<forall>x \<in> set page. P x)"
proof (induction sched n net soup w session tasks kws rx d rule: event_loop.induct)
  case (1 sched n net soup w session tasks kws rx d)
  note F = "1.prems"(1) and T = "1.prems"(2) and D = "1.prems"(3)
  show ?case
  proof (cases "runnable tasks = []")
    case True
    with D show ?thesis by (subst event_loop.simps) simp
  next
    case False
    define i where "i = runnable tasks ! (fst (sched n) mod length (runnable tasks))"
    define w0 where "w0 = w\<lparr>now := now w + snd (sched n)\<rparr>"
    obtain t w1 where s: "step_task net soup w0 session kws rx (tasks ! i) = (t, w1)"
      by (cases "step_task net soup w0 session kws rx (tasks ! i)")
    from False have "i \<in> set (runnable tasks)" by (simp add: i_def)
    from runnable_cases[OF this] have i: "i < length tasks" by simp
    have "\<forall>page \<in> set (emails_of (tasks ! i)). \<forall>x \<in> set page. P x"
      using T nth_mem[OF i] by blast
    from step_task_all[where P = P and rx = rx and t = "tasks ! i" and net = net and soup = soup
        and w = w0 and session = session and kws = kws, OF F E1 E2 this] s
    have t: "\<forall>page \<in> set (emails_of t). \<forall>x \<in> set page. P x" by simp
    have ts: "\<forall>t \<in> set (tasks[i := t]). \<forall>page \<in> set (emails_of t). \<forall>x \<in> set page. P x"
      using T t set_update_subset_insert[of tasks i t] by blast
    have ds: "\<forall>(u, vs) \<in> set (collect t d). \<forall>page \<in> set vs. \<forall>x \<in> set page. P x"
      using t D by (rule collect_all)
    note IH = "1.IH"[OF False i_def w0_def s[symmetric] F ts ds]
    have unfold: "event_loop sched n net soup w session tasks kws rx d =
        event_loop sched (Suc n) net soup w1 session (tasks[i := t]) kws rx (collect t d)"
      using False s by (subst event_loop.simps) (simp add: i_def[symmetric] w0_def[symmetric] Let_def)
    show ?thesis unfolding unfold using IH .
  qed
qed

lemma main_all:
  assumes F: "\<forall>html x. x \<in> set (re_findall rx html) \<longrightarrow> P x"
    and E1: "P ''cannot reuse already awaited coroutine''"
    and E2: "P ''coroutine is being awaited already''"
  shows "\<forall>(u, vs) \<in> set (fst (main sched net soup w kerk_urls kws rx)).
            \<forall>page \<in> set vs. \<forall>x \<in> set page. P x"
proof -
  have a: "\<forall>t \<in> set (map Not_started kerk_urls). \<forall>page \<in> set (emails_of t). \<forall>x \<in> set page. P x"
    by auto
  have b: "\<forall>(u, vs) \<in> set ([] :: result_map). \<forall>page \<in> set vs. \<forall>x \<in> set page. P x" by simp
  from event_loop_all[where P = P and rx = rx and tasks = "map Not_started kerk_urls"
      and d = "[]", OF E1 E2 F a b]
  show ?thesis by (simp add: main_def Let_def)
qed

lemma main_emails:
  assumes "(u, vs) \<in> set (fst (main sched net soup w kerk_urls kws EMAIL_REGEX))"
    and "page \<in> set vs" and "x \<in> set page"
  shows "re_fullmatch EMAIL_REGEX x \<or> \<not> re_search EMAIL_REGEX x"
proof -
  let ?P = "\<lambda>x. re_fullmatch EMAIL_REGEX x \<or> \<not> re_search EMAIL_REGEX x"
  have F: "\<forall>html x. x \<in> set (re_findall EMAIL_REGEX html) \<longrightarrow> ?P x"
    using re_findall_fullmatch by blast
  have E1: "?P ''cannot reuse already awaited coroutine''"
    by (simp add: EMAIL_REGEX_def char_classes)
  have E2: "?P ''coroutine is being awaited already''"
    by (simp add: EMAIL_REGEX_def char_classes)
  from main_all[where P = ?P and rx = EMAIL_REGEX and sched = sched and net = net and soup = soup
      and w = w and kerk_urls = kerk_urls and kws = kws, OF F E1 E2] assms
  show ?thesis by blast
qed

section \<open>Properties of the spreadsheet\<close>

lemmas table_defs =
  final_table_def drop_duplicates_def validated_def exploded_def explode_def rows_def
  str_contains_def EMAIL_REGEX_def

lemma drop_duplicates_seen_filter:
  "filter (\<lambda>r. snd r = e) (drop_duplicates_seen seen df) =
     (if e \<in> set seen then [] else take 1 (filter (\<lambda>r. snd r = e) df))"
proof (induction df arbitrary: seen)
  case Nil
  show ?case by simp
next
  case (Cons r df)
  show ?case by (cases "snd r = e") (auto simp: Cons.IH)
qed

lemma drop_duplicates_seen_subset: "set (drop_duplicates_seen seen df) \<subseteq> set df"
  by (induction df arbitrary: seen) auto

lemma final_table_subset: "set (final_table ke) \<subseteq> set (validated ke)"
  by (simp add: final_table_def drop_duplicates_def drop_duplicates_seen_subset)

lemma validated_cell:
  "(u, c) \<in> set (validated ke) \<Longrightarrow> \<exists>s. c = Some s \<and> re_search EMAIL_REGEX s"
  by (cases c) (auto simp: validated_def str_contains_def)

lemma in_explode_row:
  "(u, Some s) \<in> set (explode_row (k, cell)) \<Longrightarrow>
     u = k \<and> (\<exists>page. cell = Some page \<and> s \<in> set page)"
  by (cases "(k, cell)" rule: explode_row.cases) auto

lemma in_exploded:
  assumes "(u, Some s) \<in> set (exploded ke)"
  shows "\<exists>vs page. (u, vs) \<in> set ke \<and> page \<in> set vs \<and> s \<in> set page"
proof -
  from assms obtain k cell
    where r: "(k, cell) \<in> set (rows ke)" and e: "(u, Some s) \<in> set (explode_row (k, cell))"
    by (auto simp: exploded_def explode_def)
  from in_explode_row[OF e] obtain page
    where uk: "u = k" and c: "cell = Some page" and s: "s \<in> set page"
    by blast
  from r c obtain vs where "(k, vs) \<in> set ke" "page \<in> set vs"
    by (auto simp: rows_def split: if_splits)
  with uk s show ?thesis by blast
qed

text \<open>
  Claim C4, as the spec states it, asks that a seed without emails keeps a row
  \<^verbatim>\<open>(url, null)\<close> in the spreadsheet. It does not: a seed with no contact page gives no row at
  all, and the row with a missing email that \<^verbatim>\<open>explode\<close> makes of an empty email list is
  removed by the filter, which is called with \<^verbatim>\<open>na=False\<close>.
\<close>

theorem seed_without_emails_dropped:
  "(''https://example.org'', None) \<notin> set (final_table [(''https://example.org'', [])]) \<and>
   (''https://example.org'', None) \<notin> set (final_table [(''https://example.org'', [[]])]) \<and>
   rows [(''https://example.org'', [])] = [] \<and>
   exploded [(''https://example.org'', [[]])] = [(''https://example.org'', None)]"
  by (simp add: table_defs)

text \<open>
  Claim C4, amended: no row of the final table has a missing email, and a seed none of whose
  contact pages gave a string in which the email pattern is found has no row in the final
  table.
\<close>

theorem no_null_rows:
  "(\<forall>r \<in> set (final_table ke). snd r \<noteq> None) \<and>
   ((\<forall>vs page e. (k, vs) \<in> set ke \<and> page \<in> set vs \<and> e \<in> set page
        \<longrightarrow> \<not> re_search EMAIL_REGEX e)
      \<longrightarrow> k \<notin> fst ` set (final_table ke))"
proof (intro conjI impI ballI)
  fix r assume "r \<in> set (final_table ke)"
  then have "r \<in> set (validated ke)" using final_table_subset by blast
  then show "snd r \<noteq> None" using validated_cell[of "fst r" "snd r" ke] by auto
next
  assume H: "\<forall>vs page e. (k, vs) \<in> set ke \<and> page \<in> set vs \<and> e \<in> set page
               \<longrightarrow> \<not> re_search EMAIL_REGEX e"
  show "k \<notin> fst ` set (final_table ke)"
  proof
    assume "k \<in> fst ` set (final_table ke)"
    then obtain c where "(k, c) \<in> set (final_table ke)" by force
    then have v: "(k, c) \<in> set (validated ke)" using final_table_subset by blast
    from validated_cell[OF v] obtain s where c: "c = Some s" and m: "re_search EMAIL_REGEX s"
      by blast
    from v c have "(k, Some s) \<in> set (exploded ke)" by (simp add: validated_def)
    from in_exploded[OF this] H m show False by blast
  qed
qed

theorem no_null_rows_witness:
  "(''https://a.org'', Some ''info@a.org'')
     \<in> set (final_table [(''https://a.org'', [[''info@a.org''], []]),
                          (''https://b.org'', [[''oops''], []])]) \<and>
   ''https://b.org''
     \<notin> fst ` set (final_table [(''https://a.org'', [[''info@a.org''], []]),
                                (''https://b.org'', [[''oops''], []])])"
proof -
  let ?ke = "[(''https://a.org'', [[''info@a.org''], []]), (''https://b.org'', [[''oops''], []])]"
  have a: "(''https://a.org'', Some ''info@a.org'') \<in> set (final_table ?ke)"
    by (simp add: table_defs char_classes)
  have n: "\<not> re_search EMAIL_REGEX ''oops''"
    by (simp add: EMAIL_REGEX_def char_classes)
  have "\<forall>vs page e. (''https://b.org'', vs) \<in> set ?ke \<and> page \<in> set vs \<and> e \<in> set page
          \<longrightarrow> \<not> re_search EMAIL_REGEX e"
    using n by auto
  with no_null_rows[of ?ke "''https://b.org''"] a show ?thesis by blast
qed

text \<open>
  Claim C5: every cell of the email column of the final table, made from the dict that
  \<^verbatim>\<open>main\<close> returns for the email pattern of the script, holds a string that the pattern
  matches from its first character to its last. The strings of the dict are the matches
  that \<^verbatim>\<open>re.findall\<close> gives, each matched by the pattern as a whole, and the messages of the
  exceptions that \<^verbatim>\<open>extract_emails_from_page\<close> catches, in none of which the pattern is
  found. For every dict, every cell of the final table passes the validation of line 147,
  \<^verbatim>\<open>str.contains(EMAIL_REGEX)\<close>, and a string in which \<^verbatim>\<open>re.search\<close> does not find the
  pattern, such as a raw error message, is in no row of the final table.
\<close>

theorem email_column_validated:
  "(\<forall>(u, c) \<in> set (final_table (fst (main sched net soup w kerk_urls kws EMAIL_REGEX))).
      \<exists>s. c = Some s \<and> re_fullmatch EMAIL_REGEX s) \<and>
   (\<forall>(u, c) \<in> set (final_table ke). \<exists>s. c = Some s \<and> re_search EMAIL_REGEX s) \<and>
   (\<forall>u s. \<not> re_search EMAIL_REGEX s \<longrightarrow> (u, Some s) \<notin> set (final_table ke))"
proof (intro conjI)
  let ?ke = "fst (main sched net soup w kerk_urls kws EMAIL_REGEX)"
  show "\<forall>(u, c) \<in> set (final_table ?ke). \<exists>s. c = Some s \<and> re_fullmatch EMAIL_REGEX s"
  proof (clarify)
    fix u c assume "(u, c) \<in> set (final_table ?ke)"
    then have v: "(u, c) \<in> set (validated ?ke)" using final_table_subset by blast
    from validated_cell[OF v] obtain s where c: "c = Some s" and m: "re_search EMAIL_REGEX s"
      by blast
    from v c have "(u, Some s) \<in> set (exploded ?ke)" by (simp add: validated_def)
    from in_exploded[OF this] obtain vs page
      where "(u, vs) \<in> set ?ke" "page \<in> set vs" "s \<in> set page"
      by blast
    from main_emails[OF this] m have "re_fullmatch EMAIL_REGEX s" by blast
    with c show "\<exists>s. c = Some s \<and> re_fullmatch EMAIL_REGEX s" by blast
  qed
  show "\<forall>(u, c) \<in> set (final_table ke). \<exists>s. c = Some s \<and> re_search EMAIL_REGEX s"
    using final_table_subset[of ke] validated_cell[of _ _ ke] by fastforce
  show "\<forall>u s. \<not> re_search EMAIL_REGEX s \<longrightarrow> (u, Some s) \<notin> set (final_table ke)"
    using final_table_subset[of ke] validated_cell[of _ _ ke] by fastforce
qed

theorem email_column_validated_witness:
  "final_table (fst (main first_come example_net example_soup start [''https://example.org'']
                       contact_page_keywords EMAIL_REGEX))
     = [(''https://example.org'', Some ''info@example.org'')] \<and>
   re_fullmatch EMAIL_REGEX ''info@example.org'' \<and>
   \<not> re_search EMAIL_REGEX ''cannot reuse already awaited coroutine'' \<and>
   (''https://example.org'', Some ''cannot reuse already awaited coroutine'')
     \<notin> set (final_table (fst (main first_come example_net example_soup start
                                 [''https://example.org''] contact_page_keywords EMAIL_REGEX)))"
proof -
  let ?ke = "fst (main first_come example_net example_soup start [''https://example.org'']
                    contact_page_keywords EMAIL_REGEX)"
  have t: "final_table ?ke = [(''https://example.org'', Some ''info@example.org'')]"
    unfolding example_run by (simp add: table_defs char_classes)
  have n: "\<not> re_search EMAIL_REGEX ''cannot reuse already awaited coroutine''"
    by (simp add: EMAIL_REGEX_def char_classes)
  note inst = email_column_validated[of first_come example_net example_soup start
      "[''https://example.org'']" contact_page_keywords ?ke]
  from inst t have f: "re_fullmatch EMAIL_REGEX ''info@example.org''" by auto
  from inst n have "(''https://example.org'', Some ''cannot reuse already awaited coroutine'')
     \<notin> set (final_table ?ke)" by blast
  with t n f show ?thesis by simp
qed

text \<open>
  Claim C6: for every value of the email column, the rows of the final table with that value
  are the first row with that value of the table before \<^verbatim>\<open>drop_duplicates\<close>, and no other:
  when an email occurs for several seeds, or several times for one seed, only the row met
  first is left.
\<close>

theorem first_row_per_email_survives:
  "filter (\<lambda>r. snd r = e) (final_table ke) = take 1 (filter (\<lambda>r. snd r = e) (validated ke))"
  by (simp add: final_table_def drop_duplicates_def drop_duplicates_seen_filter)

end
